theory Spec2Isabelle
  imports Complex_Main "HOL-Library.Word"
begin

unbundle bit_operations_syntax

section \<open>The host platform\<close>

text \<open>
  The audio player of \<^verbatim>\<open>utils/audioPlayer\<close> runs in a browser. Its three functions
  \<^verbatim>\<open>decode\<close>, \<^verbatim>\<open>decodeAudioData\<close> and the class \<^verbatim>\<open>AudioPlayer\<close> call the host for
  \<^verbatim>\<open>atob\<close>, typed arrays and the Web Audio nodes. The host operations are modelled after
  their standards (WHATWG Infra for \<^verbatim>\<open>atob\<close>, ECMAScript for typed arrays, Web IDL
  and Web Audio for \<^verbatim>\<open>createBuffer\<close> and the source node); every exception the host can
  raise on the paths of the program is a value of \<open>error\<close>.
\<close>

datatype error = InvalidCharacterError | RangeError | NotSupportedError | IndexSizeError

type_synonym byte = "8 word"
type_synonym int16 = "16 word"

text \<open>
  A JavaScript number that the program stores in a \<^verbatim>\<open>Float32Array\<close>. The only numbers the
  program produces are a 16-bit integer divided by \<open>2 ^ 15\<close>, which binary floating point
  represents exactly, and \<^verbatim>\<open>NaN\<close> (from \<^verbatim>\<open>undefined / 32768.0\<close>).
\<close>

datatype number = Num rat | NaN

subsection \<open>Typed arrays\<close>

text \<open>
  \<^verbatim>\<open>new Int16Array(buffer)\<close> raises \<^verbatim>\<open>RangeError\<close> when the byte length of the buffer is
  not a multiple of the element size 2. Otherwise element \<open>k\<close> is the pair of bytes
  \<open>2k\<close>, \<open>2k + 1\<close> read in the byte order of the platform (little-endian), as a signed
  16-bit integer. The buffer of the \<^verbatim>\<open>Uint8Array\<close> that \<^verbatim>\<open>decode\<close> allocates holds exactly
  the bytes of the array.
\<close>

fun int16_view :: "byte list \<Rightarrow> int16 list" where
  "int16_view (lo # hi # rest) = (push_bit 8 (ucast hi) OR ucast lo) # int16_view rest"
| "int16_view _ = []"

definition Int16Array :: "byte list \<Rightarrow> error + int16 list" where
  "Int16Array buffer =
     (if length buffer mod 2 \<noteq> 0 then Inl RangeError else Inr (int16_view buffer))"

text \<open>Reading a typed array out of range gives \<^verbatim>\<open>undefined\<close>; writing out of range is ignored.\<close>

definition typed_get :: "'a list \<Rightarrow> nat \<Rightarrow> 'a option" where
  "typed_get xs i = (if i < length xs then Some (xs ! i) else None)"

definition typed_set :: "'a list \<Rightarrow> nat \<Rightarrow> 'a \<Rightarrow> 'a list" where
  "typed_set xs i v = (if i < length xs then xs[i := v] else xs)"

subsection \<open>Audio buffers\<close>

text \<open>
  What the implementation of Web Audio supports is not fixed by the program: the largest
  channel count of a buffer and the range of sample rates are parameters of the host.
\<close>

record host_limits =
  maxChannels :: nat
  minRate :: nat
  maxRate :: nat

record audio_context = host_limits +
  ctx_sampleRate :: nat

record audio_buffer =
  numberOfChannels :: nat
  buffer_length :: nat
  sampleRate :: nat
  channels :: "number list list"

text \<open>
  Web IDL converts the \<^verbatim>\<open>unsigned long\<close> argument \<^verbatim>\<open>length\<close> of \<^verbatim>\<open>createBuffer\<close> to its
  integer part (array lengths stay below \<open>2 ^ 32\<close>, so the reduction modulo \<open>2 ^ 32\<close> is
  the identity). \<^verbatim>\<open>createBuffer\<close> raises \<^verbatim>\<open>NotSupportedError\<close> when an argument is zero or
  outside the range the implementation supports; the new buffer is silent.
\<close>

definition to_unsigned_long :: "rat \<Rightarrow> nat" where
  "to_unsigned_long x = nat \<lfloor>x\<rfloor>"

definition createBuffer :: "audio_context \<Rightarrow> nat \<Rightarrow> rat \<Rightarrow> nat \<Rightarrow> error + audio_buffer" where
  "createBuffer ctx numChannels len rate =
     (let n = to_unsigned_long len in
      if numChannels = 0 \<or> maxChannels ctx < numChannels \<or> n = 0
         \<or> rate < minRate ctx \<or> maxRate ctx < rate
      then Inl NotSupportedError
      else Inr \<lparr>numberOfChannels = numChannels, buffer_length = n, sampleRate = rate,
                channels = replicate numChannels (replicate n (Num 0))\<rparr>)"

definition getChannelData :: "audio_buffer \<Rightarrow> nat \<Rightarrow> error + number list" where
  "getChannelData buffer channel =
     (if channel < numberOfChannels buffer \<and> channel < length (channels buffer)
      then Inr (channels buffer ! channel) else Inl IndexSizeError)"

section \<open>Raw PCM to audio buffer: \<^verbatim>\<open>decodeAudioData\<close>\<close>

text \<open>\<^verbatim>\<open>dataInt16[k] / 32768.0\<close>, where \<^verbatim>\<open>dataInt16[k]\<close> is \<^verbatim>\<open>undefined\<close> out of range.\<close>

definition normalize_sample :: "int16 option \<Rightarrow> number" where
  "normalize_sample v = (case v of None \<Rightarrow> NaN | Some w \<Rightarrow> Num (of_int (sint w) / 32768))"

text \<open>
  The inner loop \<^verbatim>\<open>for (let i = 0; i < frameCount; i++)\<close>: \<open>frameCount\<close> is a quotient and
  need not be an integer, so \<open>i\<close> runs over \<open>0, \<dots>, \<lceil>frameCount\<rceil> - 1\<close>.
\<close>

definition fill_channel :: "int16 list \<Rightarrow> nat \<Rightarrow> rat \<Rightarrow> nat \<Rightarrow> number list \<Rightarrow> number list" where
  "fill_channel dataInt16 numChannels frameCount channel channelData =
     fold (\<lambda>i cd. typed_set cd i (normalize_sample (typed_get dataInt16 (i * numChannels + channel))))
          [0 ..< nat \<lceil>frameCount\<rceil>] channelData"

text \<open>
  The outer loop over the channels. \<^verbatim>\<open>getChannelData\<close> returns the array held by the
  buffer, so filling it changes the buffer.
\<close>

fun channel_loop :: "int16 list \<Rightarrow> nat \<Rightarrow> rat \<Rightarrow> nat list \<Rightarrow> audio_buffer \<Rightarrow> error + audio_buffer" where
  "channel_loop dataInt16 numChannels frameCount [] buffer = Inr buffer"
| "channel_loop dataInt16 numChannels frameCount (channel # rest) buffer =
     (case getChannelData buffer channel of
        Inl e \<Rightarrow> Inl e
      | Inr channelData \<Rightarrow>
          channel_loop dataInt16 numChannels frameCount rest
            (buffer\<lparr>channels := (channels buffer)
               [channel := fill_channel dataInt16 numChannels frameCount channel channelData]\<rparr>))"

definition decodeAudioData :: "byte list \<Rightarrow> audio_context \<Rightarrow> nat \<Rightarrow> nat \<Rightarrow> error + audio_buffer" where
  "decodeAudioData data ctx rate numChannels =
     (case Int16Array data of
        Inl e \<Rightarrow> Inl e
      | Inr dataInt16 \<Rightarrow>
          let frameCount = of_nat (length dataInt16) / of_nat numChannels in
          (case createBuffer ctx numChannels frameCount rate of
             Inl e \<Rightarrow> Inl e
           | Inr buffer \<Rightarrow> channel_loop dataInt16 numChannels frameCount [0 ..< numChannels] buffer))"

section \<open>Base64 text to bytes: \<^verbatim>\<open>decode\<close>\<close>

subsection \<open>The host function \<^verbatim>\<open>atob\<close>\<close>

text \<open>
  \<^verbatim>\<open>atob\<close> runs the forgiving base64 decoding of the WHATWG Infra standard and raises
  \<^verbatim>\<open>InvalidCharacterError\<close> where that fails:
  \<^enum> remove all ASCII whitespace (tab, line feed, form feed, carriage return, space);
  \<^enum> if the length is now a multiple of 4, remove one or two \<^verbatim>\<open>=\<close> from the end;
  \<^enum> fail if the length is now 1 modulo 4;
  \<^enum> fail if a character is not of the alphabet \<^verbatim>\<open>A-Z a-z 0-9 + /\<close>;
  \<^enum> read 6 bits per character, give a byte for every 8 bits, and drop the 4 or 2 bits
    left over at the end.
  A text whose code units go beyond 255 has a character outside the alphabet and fails like
  any other; here a text is a list of 8-bit characters. The result is a binary string, one
  character for each byte.
\<close>

definition is_ascii_whitespace :: "char \<Rightarrow> bool" where
  "is_ascii_whitespace c = (of_char c \<in> {9, 10, 12, 13, 32 :: nat})"

definition base64_index :: "char \<Rightarrow> nat option" where
  "base64_index c =
     (let n = of_char c :: nat in
      if 65 \<le> n \<and> n \<le> 90 then Some (n - 65)
      else if 97 \<le> n \<and> n \<le> 122 then Some (n - 71)
      else if 48 \<le> n \<and> n \<le> 57 then Some (n + 4)
      else if n = 43 then Some 62
      else if n = 47 then Some 63
      else None)"

text \<open>Step 2: the text ends with one or two \<^verbatim>\<open>=\<close>, which are removed.\<close>

definition remove_padding :: "string \<Rightarrow> string" where
  "remove_padding data =
     (if data \<noteq> [] \<and> last data = CHR ''=''
      then (let data' = butlast data
            in if data' \<noteq> [] \<and> last data' = CHR ''='' then butlast data' else data')
      else data)"

definition base64_payload :: "string \<Rightarrow> string" where
  "base64_payload text =
     (let data = filter (\<lambda>c. \<not> is_ascii_whitespace c) text in
      if length data mod 4 = 0 then remove_padding data else data)"

text \<open>Step 5, on the 6-bit values of the characters.\<close>

fun decode_sextets :: "nat list \<Rightarrow> nat list" where
  "decode_sextets (a # b # c # d # rest) =
     (let n = ((a * 64 + b) * 64 + c) * 64 + d
      in n div 65536 # n div 256 mod 256 # n mod 256 # decode_sextets rest)"
| "decode_sextets [a, b, c] =
     (let n = ((a * 64 + b) * 64 + c) div 4 in [n div 256, n mod 256])"
| "decode_sextets [a, b] = [(a * 64 + b) div 16]"
| "decode_sextets _ = []"

definition forgiving_base64_decode :: "string \<Rightarrow> string option" where
  "forgiving_base64_decode text =
     (let data = base64_payload text in
      if length data mod 4 = 1 then None
      else case those (map base64_index data) of
             None \<Rightarrow> None
           | Some sextets \<Rightarrow> Some (map char_of (decode_sextets sextets)))"

definition atob :: "string \<Rightarrow> error + string" where
  "atob text =
     (case forgiving_base64_decode text of
        None \<Rightarrow> Inl InvalidCharacterError
      | Some binaryString \<Rightarrow> Inr binaryString)"

subsection \<open>\<^verbatim>\<open>decode\<close>\<close>

text \<open>
  \<^verbatim>\<open>charCodeAt\<close> is \<^verbatim>\<open>NaN\<close> out of range, and a \<^verbatim>\<open>Uint8Array\<close> stores a number modulo
  256 and \<^verbatim>\<open>NaN\<close> as 0. \<^verbatim>\<open>new Uint8Array(len)\<close> is filled with zeros.
\<close>

definition charCodeAt :: "string \<Rightarrow> nat \<Rightarrow> nat option" where
  "charCodeAt str i = (if i < length str then Some (of_char (str ! i)) else None)"

definition to_uint8 :: "nat option \<Rightarrow> byte" where
  "to_uint8 v = (case v of None \<Rightarrow> 0 | Some n \<Rightarrow> of_nat n)"

definition decode :: "string \<Rightarrow> error + byte list" where
  "decode base64 =
     (case atob base64 of
        Inl e \<Rightarrow> Inl e
      | Inr binaryString \<Rightarrow>
          let len = length binaryString;
              bytes = replicate len 0
          in Inr (fold (\<lambda>i bytes. typed_set bytes i (to_uint8 (charCodeAt binaryString i)))
                       [0 ..< len] bytes))"

subsection \<open>The encoding that \<^verbatim>\<open>decode\<close> is measured against\<close>

text \<open>
  The standard base64 encoding of a byte sequence (RFC 4648, with padding), the text-safe
  encoding whose inverse the specification asks \<^verbatim>\<open>decode\<close> to be. It is not part of the
  program: it says which bytes a text stands for. Three bytes give four characters of the
  alphabet; one or two bytes left over give two or three characters and \<^verbatim>\<open>==\<close> or \<^verbatim>\<open>=\<close>.
\<close>

definition base64_char :: "nat \<Rightarrow> char" where
  "base64_char n =
     (if n < 26 then char_of (n + 65)
      else if n < 52 then char_of (n + 71)
      else if n < 62 then char_of (n - 4)
      else if n = 62 then CHR ''+''
      else CHR ''/'')"

fun encode_sextets :: "nat list \<Rightarrow> nat list" where
  "encode_sextets (x # y # z # rest) =
     (let n = (x * 256 + y) * 256 + z
      in n div 262144 # n div 4096 mod 64 # n div 64 mod 64 # n mod 64 # encode_sextets rest)"
| "encode_sextets [x, y] =
     (let n = (x * 256 + y) * 4 in [n div 4096, n div 64 mod 64, n mod 64])"
| "encode_sextets [x] = (let n = x * 16 in [n div 64, n mod 64])"
| "encode_sextets [] = []"

definition base64_encode :: "byte list \<Rightarrow> string" where
  "base64_encode bytes =
     map base64_char (encode_sextets (map unat bytes))
     @ replicate ((3 - length bytes mod 3) mod 3) CHR ''=''"

text \<open>
  The result of the two loops of \<^verbatim>\<open>decodeAudioData\<close>, written as a table: channel \<open>c\<close> holds, at frame \<open>i\<close>, the
  normalized sample \<open>i * numChannels + c\<close> of the interleaved input, for the whole frames
  only.
\<close>

definition planar :: "int16 list \<Rightarrow> nat \<Rightarrow> number list list" where
  "planar d nc =
     map (\<lambda>c. map (\<lambda>i. normalize_sample (Some (d ! (i * nc + c)))) [0 ..< length d div nc]) [0 ..< nc]"

section \<open>The playback controller: class \<^verbatim>\<open>AudioPlayer\<close>\<close>

subsection \<open>Source nodes of the host\<close>

text \<open>
  An \<^verbatim>\<open>AudioBufferSourceNode\<close> is an object of the host; the player holds a reference to the
  one it plays. The nodes live in a store, a list indexed by reference, and
  \<^verbatim>\<open>createBufferSource\<close> appends a fresh node. Of a node the program sets the buffer, the
  connection to the destination and the \<^verbatim>\<open>onended\<close> handler, and calls \<^verbatim>\<open>start()\<close> and
  \<^verbatim>\<open>stop()\<close>. The handler is either \<^verbatim>\<open>null\<close> or the closure that \<^verbatim>\<open>play\<close> installs, so a
  flag stands for it. \<^verbatim>\<open>start()\<close> without arguments plays from offset 0. The host raises
  its \<^verbatim>\<open>ended\<close> event on a node that was started, at most once, when the buffer is
  exhausted or after \<^verbatim>\<open>stop()\<close>; \<open>ended\<close> records that it did.
\<close>

record source_node =
  node_buffer :: "audio_buffer option"
  connected :: bool
  onended :: bool
  start_offset :: "nat option"
  stopped :: bool
  ended :: bool

text \<open>
  What the player does to the world outside: a line on the error console, or a call of the
  registered callback. A callback is opaque to the player and identified by a number; it
  does not call back into the player while it runs. The call is recorded with the node
  whose \<^verbatim>\<open>ended\<close> event led to it and with the \<^verbatim>\<open>sourceNode\<close> field as the callback finds it.
\<close>

type_synonym callback = nat

datatype event = ConsoleError string | CallbackInvoked nat callback "nat option"

text \<open>The fields of the class, then the store of nodes and the trace of events.\<close>

record player =
  base64Audio :: string
  audioContext :: audio_context
  audioBuffer :: "audio_buffer option"
  sourceNode :: "nat option"
  onEndedCallback :: "callback option"
  nodes :: "source_node list"
  events :: "event list"

text \<open>
  The constructor asks the host for a context at 24000 Hz, which the host refuses with
  \<^verbatim>\<open>NotSupportedError\<close> when it does not support the rate.
\<close>

definition new_AudioContext :: "host_limits \<Rightarrow> nat \<Rightarrow> error + audio_context" where
  "new_AudioContext host rate =
     (if rate < minRate host \<or> maxRate host < rate then Inl NotSupportedError
      else Inr \<lparr>maxChannels = maxChannels host, minRate = minRate host,
                maxRate = maxRate host, ctx_sampleRate = rate\<rparr>)"

definition AudioPlayer :: "host_limits \<Rightarrow> string \<Rightarrow> error + player" where
  "AudioPlayer host base64 =
     (case new_AudioContext host 24000 of
        Inl e \<Rightarrow> Inl e
      | Inr ctx \<Rightarrow>
          Inr \<lparr>base64Audio = base64, audioContext = ctx, audioBuffer = None, sourceNode = None,
               onEndedCallback = None, nodes = [], events = []\<rparr>)"

definition update_node :: "nat \<Rightarrow> (source_node \<Rightarrow> source_node) \<Rightarrow> player \<Rightarrow> player" where
  "update_node n f s = s\<lparr>nodes := (nodes s)[n := f (nodes s ! n)]\<rparr>"

definition createBufferSource :: "player \<Rightarrow> nat \<times> player" where
  "createBufferSource s =
     (length (nodes s),
      s\<lparr>nodes := nodes s @ [\<lparr>node_buffer = None, connected = False, onended = False,
                              start_offset = None, stopped = False, ended = False\<rparr>]\<rparr>)"

subsection \<open>The methods\<close>

text \<open>
  \<^verbatim>\<open>load\<close> is asynchronous; the caller awaits it before the next call, so it is one step
  here. An exception of \<^verbatim>\<open>decode\<close> or \<^verbatim>\<open>decodeAudioData\<close> rejects the promise before the
  assignment to \<^verbatim>\<open>audioBuffer\<close>.
\<close>

definition load :: "player \<Rightarrow> error + player" where
  "load s =
     (if audioBuffer s \<noteq> None then Inr s
      else case decode (base64Audio s) of
             Inl e \<Rightarrow> Inl e
           | Inr decoded \<Rightarrow>
               (case decodeAudioData decoded (audioContext s) 24000 1 of
                  Inl e \<Rightarrow> Inl e
                | Inr b \<Rightarrow> Inr (s\<lparr>audioBuffer := Some b\<rparr>)))"

definition stop :: "player \<Rightarrow> player" where
  "stop s =
     (case sourceNode s of
        None \<Rightarrow> s
      | Some n \<Rightarrow>
          let s1 = update_node n (\<lambda>node. node\<lparr>onended := False\<rparr>) s;
              s2 = update_node n (\<lambda>node. node\<lparr>stopped := True\<rparr>) s1
          in s2\<lparr>sourceNode := None\<rparr>)"

text \<open>
  \<^verbatim>\<open>play()\<close> has no \<^verbatim>\<open>throw\<close> and returns no value: after \<^verbatim>\<open>console.error\<close> the unloaded
  path ends in a bare \<^verbatim>\<open>return\<close>, and the other path runs to the end of the method. What
  the caller receives is the first component, \<open>Inr ()\<close> for the normal completion with
  \<^verbatim>\<open>undefined\<close>; an exception would be \<open>Inl\<close>. The second component is the player after
  the call.
\<close>

definition play_call :: "player \<Rightarrow> (error + unit) \<times> player" where
  "play_call s =
     (case audioBuffer s of
        None \<Rightarrow> (Inr (), s\<lparr>events := events s @ [ConsoleError ''Audio not loaded yet.'']\<rparr>)
      | Some b \<Rightarrow>
          let s1 = (if sourceNode s \<noteq> None then stop s else s);
              (n, s2) = createBufferSource s1;
              s3 = s2\<lparr>sourceNode := Some n\<rparr>;
              s4 = update_node n (\<lambda>node. node\<lparr>node_buffer := audioBuffer s3\<rparr>) s3;
              s5 = update_node n (\<lambda>node. node\<lparr>connected := True\<rparr>) s4;
              s6 = update_node n (\<lambda>node. node\<lparr>onended := True\<rparr>) s5
          in (Inr (), update_node n (\<lambda>node. node\<lparr>start_offset := Some 0\<rparr>) s6))"

definition play :: "player \<Rightarrow> player" where
  "play s = snd (play_call s)"

definition onEnded :: "callback \<Rightarrow> player \<Rightarrow> player" where
  "onEnded callback s = s\<lparr>onEndedCallback := Some callback\<rparr>"

text \<open>
  The closure that \<^verbatim>\<open>play\<close> installs as \<^verbatim>\<open>onended\<close>. It reads the fields of the player when
  it runs, not when it was made. The node \<open>n\<close> is the one the event was raised on.
\<close>

definition onended_handler :: "nat \<Rightarrow> player \<Rightarrow> player" where
  "onended_handler n s =
     (let s1 = s\<lparr>sourceNode := None\<rparr>
      in case onEndedCallback s1 of
           None \<Rightarrow> s1
         | Some callback \<Rightarrow>
             s1\<lparr>events := events s1 @ [CallbackInvoked n callback (sourceNode s1)]\<rparr>)"

text \<open>The host raises \<^verbatim>\<open>ended\<close> on node \<open>n\<close> and runs the handler the node has then.\<close>

definition dispatch_ended :: "nat \<Rightarrow> player \<Rightarrow> player" where
  "dispatch_ended n s =
     (if n < length (nodes s) \<and> start_offset (nodes s ! n) \<noteq> None \<and> \<not> ended (nodes s ! n)
      then let s1 = update_node n (\<lambda>node. node\<lparr>ended := True\<rparr>) s
           in if onended (nodes s1 ! n) then onended_handler n s1 else s1
      else s)"

subsection \<open>Histories\<close>

text \<open>
  What can happen to a player: the caller calls a method, or the host raises \<^verbatim>\<open>ended\<close> on
  some node. A rejected \<^verbatim>\<open>load\<close> leaves the player as it was.
\<close>

datatype action = Load | Play | Stop | OnEnded callback | Ended nat

fun step :: "action \<Rightarrow> player \<Rightarrow> player" where
  "step Load s = (case load s of Inl e \<Rightarrow> s | Inr s' \<Rightarrow> s')"
| "step Play s = play s"
| "step Stop s = stop s"
| "step (OnEnded callback) s = onEnded callback s"
| "step (Ended n) s = dispatch_ended n s"

definition run :: "action list \<Rightarrow> player \<Rightarrow> player" where
  "run acts s = fold step acts s"

text \<open>The callbacks that were called for the session of node \<open>n\<close>, in order.\<close>

fun fired_for :: "nat \<Rightarrow> event list \<Rightarrow> callback list" where
  "fired_for n [] = []"
| "fired_for n (CallbackInvoked m callback seen # evs) =
     (if m = n then callback # fired_for n evs else fired_for n evs)"
| "fired_for n (ConsoleError msg # evs) = fired_for n evs"

text \<open>The three states of the specification, read off the fields.\<close>

datatype status = Unloaded | Loaded | Playing

definition status_of :: "player \<Rightarrow> status" where
  "status_of s =
     (case audioBuffer s of
        None \<Rightarrow> Unloaded
      | Some b \<Rightarrow> (case sourceNode s of None \<Rightarrow> Loaded | Some n \<Rightarrow> Playing))"

text \<open>
  In every state the player reaches, a session in progress has a loaded buffer and a node
  of the store that was started, still carries the handler and has not ended; and every
  call of a callback on the trace came from a node that has ended.
\<close>

fun call_of_ended :: "source_node list \<Rightarrow> event \<Rightarrow> bool" where
  "call_of_ended ns (CallbackInvoked m callback seen) = (m < length ns \<and> ended (ns ! m))"
| "call_of_ended ns (ConsoleError msg) = True"

definition wellformed :: "player \<Rightarrow> bool" where
  "wellformed s =
     ((case sourceNode s of
         None \<Rightarrow> True
       | Some n \<Rightarrow> audioBuffer s \<noteq> None \<and> n < length (nodes s) \<and> onended (nodes s ! n)
                   \<and> start_offset (nodes s ! n) \<noteq> None \<and> \<not> ended (nodes s ! n))
      \<and> list_all (call_of_ended (nodes s)) (events s))"

text \<open>A node whose \<^verbatim>\<open>ended\<close> event can no longer reach the callback.\<close>

definition quiet :: "nat \<Rightarrow> player \<Rightarrow> bool" where
  "quiet n s = (n < length (nodes s) \<and> (ended (nodes s ! n) \<or> \<not> onended (nodes s ! n)))"

text \<open>The node of a session that \<^verbatim>\<open>play\<close> has just started on the buffer \<open>b\<close>.\<close>

definition started_node :: "audio_buffer \<Rightarrow> source_node" where
  "started_node b = \<lparr>node_buffer = Some b, connected = True, onended = True,
                     start_offset = Some 0, stopped = False, ended = False\<rparr>"

subsection \<open>A player to try the methods on\<close>

text \<open>
  A host with the least limits Web Audio allows, and the payload \<^verbatim>\<open>AID/fw==\<close>: the four
  bytes \<^verbatim>\<open>00 80 FF 7F\<close> of the scenario of the specification.
\<close>

abbreviation example_host :: host_limits where
  "example_host \<equiv> \<lparr>maxChannels = 32, minRate = 8000, maxRate = 96000\<rparr>"

abbreviation example_context :: audio_context where
  "example_context \<equiv> \<lparr>maxChannels = 32, minRate = 8000, maxRate = 96000, ctx_sampleRate = 24000\<rparr>"

abbreviation example_buffer :: audio_buffer where
  "example_buffer \<equiv> \<lparr>numberOfChannels = 1, buffer_length = 2, sampleRate = 24000,
                       channels = [[Num (- 1), Num (32767 / 32768)]]\<rparr>"

abbreviation example_new :: player where
  "example_new \<equiv> \<lparr>base64Audio = ''AID/fw=='', audioContext = example_context,
                    audioBuffer = None, sourceNode = None, onEndedCallback = None,
                    nodes = [], events = []\<rparr>"

abbreviation example_loaded :: player where
  "example_loaded \<equiv> \<lparr>base64Audio = ''AID/fw=='', audioContext = example_context,
                       audioBuffer = Some example_buffer, sourceNode = None,
                       onEndedCallback = Some 1, nodes = [], events = []\<rparr>"

abbreviation example_playing :: player where
  "example_playing \<equiv> \<lparr>base64Audio = ''AID/fw=='', audioContext = example_context,
                        audioBuffer = Some example_buffer, sourceNode = Some 0,
                        onEndedCallback = Some 1, nodes = [started_node example_buffer],
                        events = []\<rparr>"

section \<open>The two loops in closed form\<close>

lemma length_int16_view: "length (int16_view bs) = length bs div 2"
  by (induction bs rule: int16_view.induct) simp_all

lemma to_unsigned_long_quotient: "to_unsigned_long (of_nat m / of_nat n) = m div n"
  by (simp add: to_unsigned_long_def floor_divide_of_nat_eq)

lemma less_ceiling_quotient:
  assumes "0 < n"
  shows "i < nat \<lceil>(of_nat m :: rat) / of_nat n\<rceil> \<longleftrightarrow> i * n < m"
proof -
  have "i < nat \<lceil>(of_nat m :: rat) / of_nat n\<rceil> \<longleftrightarrow> int i < \<lceil>(of_nat m :: rat) / of_nat n\<rceil>"
    by linarith
  also have "\<dots> \<longleftrightarrow> (of_nat i :: rat) < of_nat m / of_nat n"
    by (simp add: less_ceiling_iff)
  also have "\<dots> \<longleftrightarrow> (of_nat i :: rat) * of_nat n < of_nat m"
    using assms by (simp add: pos_less_divide_eq)
  also have "\<dots> \<longleftrightarrow> i * n < m"
    by (metis of_nat_less_iff of_nat_mult)
  finally show ?thesis .
qed

lemma frame_index_in_range:
  fixes n nc i c :: nat
  assumes "i < n div nc" "c < nc"
  shows "i * nc + c < n"
proof -
  have "i * nc + c < Suc i * nc" using assms(2) by simp
  also have "\<dots> \<le> (n div nc) * nc" using assms(1) by (intro mult_le_mono1) simp
  also have "\<dots> \<le> n" by simp
  finally show ?thesis .
qed

text \<open>A loop of indexed writes leaves the length alone and overwrites the cells in range.\<close>

lemma typed_set_loop:
  "fold (\<lambda>i cd. typed_set cd i (g i)) [0 ..< N] cd =
     map (\<lambda>i. if i < N then g i else cd ! i) [0 ..< length cd]"
proof (induction N)
  case 0
  show ?case by (simp add: map_nth)
next
  case (Suc N)
  let ?f = "\<lambda>i cd. typed_set cd i (g i)"
  let ?h = "\<lambda>i. if i < N then g i else cd ! i"
  have "fold ?f [0 ..< Suc N] cd = typed_set (fold ?f [0 ..< N] cd) N (g N)"
    by simp
  also have "\<dots> = typed_set (map ?h [0 ..< length cd]) N (g N)"
    by (simp only: Suc.IH)
  also have "\<dots> = map (\<lambda>i. if i < Suc N then g i else cd ! i) [0 ..< length cd]"
  proof (cases "N < length cd")
    case True
    then show ?thesis
      by (intro nth_equalityI) (auto simp: typed_set_def nth_list_update less_Suc_eq)
  next
    case False
    then show ?thesis
      by (intro nth_equalityI) (auto simp: typed_set_def)
  qed
  finally show ?case .
qed

lemma channels_update_loop:
  "k \<le> length chs \<Longrightarrow>
   fold (\<lambda>c xs. xs[c := F c (xs ! c)]) [0 ..< k] chs =
     map (\<lambda>c. if c < k then F c (chs ! c) else chs ! c) [0 ..< length chs]"
proof (induction k)
  case 0
  show ?case by (simp add: map_nth)
next
  case (Suc k)
  let ?f = "\<lambda>c xs. xs[c := F c (xs ! c)]"
  let ?h = "\<lambda>c. if c < k then F c (chs ! c) else chs ! c"
  have k: "k < length chs" using Suc.prems by simp
  have "fold ?f [0 ..< Suc k] chs = ?f k (fold ?f [0 ..< k] chs)"
    by simp
  also have "\<dots> = ?f k (map ?h [0 ..< length chs])"
    using Suc.IH k by simp
  also have "\<dots> = map (\<lambda>c. if c < Suc k then F c (chs ! c) else chs ! c) [0 ..< length chs]"
    using k by (intro nth_equalityI) (auto simp: nth_list_update less_Suc_eq)
  finally show ?case .
qed

text \<open>While every channel index is one of the buffer, \<^verbatim>\<open>getChannelData\<close> does not raise.\<close>

lemma channel_loop_fold:
  "\<forall>c \<in> set cs. c < numberOfChannels buffer \<and> c < length (channels buffer) \<Longrightarrow>
   channel_loop d nc fc cs buffer =
     Inr (buffer\<lparr>channels := fold (\<lambda>c xs. xs[c := fill_channel d nc fc c (xs ! c)]) cs (channels buffer)\<rparr>)"
proof (induction cs arbitrary: buffer)
  case Nil
  show ?case by simp
next
  case (Cons c cs)
  let ?b = "buffer\<lparr>channels := (channels buffer)[c := fill_channel d nc fc c (channels buffer ! c)]\<rparr>"
  have c: "c < numberOfChannels buffer" "c < length (channels buffer)"
    using Cons.prems by simp_all
  have "\<forall>c' \<in> set cs. c' < numberOfChannels ?b \<and> c' < length (channels ?b)"
    using Cons.prems by simp
  from Cons.IH [OF this] c show ?case
    by (simp add: getChannelData_def)
qed

lemma fill_channel_silent:
  assumes "0 < nc" "c < nc"
  shows "fill_channel d nc (of_nat (length d) / of_nat nc) c (replicate (length d div nc) z) =
           map (\<lambda>i. normalize_sample (Some (d ! (i * nc + c)))) [0 ..< length d div nc]"
proof (rule nth_equalityI)
  show "length (fill_channel d nc (of_nat (length d) / of_nat nc) c (replicate (length d div nc) z)) =
          length (map (\<lambda>i. normalize_sample (Some (d ! (i * nc + c)))) [0 ..< length d div nc])"
    by (simp add: fill_channel_def typed_set_loop)
next
  fix i
  assume "i < length (fill_channel d nc (of_nat (length d) / of_nat nc) c (replicate (length d div nc) z))"
  then have i: "i < length d div nc"
    by (simp add: fill_channel_def typed_set_loop)
  then have idx: "i * nc + c < length d"
    using assms(2) by (rule frame_index_in_range)
  then have "i * nc < length d" by simp
  then have "i < nat \<lceil>(of_nat (length d) :: rat) / of_nat nc\<rceil>"
    using assms(1) by (simp add: less_ceiling_quotient)
  with i idx show "fill_channel d nc (of_nat (length d) / of_nat nc) c (replicate (length d div nc) z) ! i =
          map (\<lambda>i. normalize_sample (Some (d ! (i * nc + c)))) [0 ..< length d div nc] ! i"
    by (simp add: fill_channel_def typed_set_loop typed_get_def)
qed

lemma decodeAudioData_eq:
  "decodeAudioData data ctx rate nc =
     (if odd (length data) then Inl RangeError
      else if nc = 0 \<or> maxChannels ctx < nc \<or> length data div 2 div nc = 0
              \<or> rate < minRate ctx \<or> maxRate ctx < rate
      then Inl NotSupportedError
      else Inr \<lparr>numberOfChannels = nc, buffer_length = length data div 2 div nc,
                sampleRate = rate, channels = planar (int16_view data) nc\<rparr>)"
proof (cases "odd (length data)")
  case True
  then show ?thesis
    by (simp add: decodeAudioData_def Int16Array_def odd_iff_mod_2_eq_one)
next
  case even: False
  let ?d = "int16_view data"
  let ?L = "length ?d div nc"
  have view: "Int16Array data = Inr ?d"
    using even by (simp add: Int16Array_def)
  show ?thesis
  proof (cases "nc = 0 \<or> maxChannels ctx < nc \<or> length data div 2 div nc = 0
              \<or> rate < minRate ctx \<or> maxRate ctx < rate")
    case True
    then have "createBuffer ctx nc (of_nat (length ?d) / of_nat nc) rate = Inl NotSupportedError"
      unfolding createBuffer_def to_unsigned_long_quotient Let_def length_int16_view
      by (simp only: if_True)
    with even True view show ?thesis
      by (simp add: decodeAudioData_def)
  next
    case False
    let ?b = "\<lparr>numberOfChannels = nc, buffer_length = ?L, sampleRate = rate,
               channels = replicate nc (replicate ?L (Num 0))\<rparr>"
    have nc: "0 < nc" using False by simp
    have cb: "createBuffer ctx nc (of_nat (length ?d) / of_nat nc) rate = Inr ?b"
      using False
      unfolding createBuffer_def to_unsigned_long_quotient Let_def length_int16_view
      by (simp only: if_False)
    have "channel_loop ?d nc (of_nat (length ?d) / of_nat nc) [0 ..< nc] ?b =
            Inr (?b\<lparr>channels := fold (\<lambda>c xs. xs[c := fill_channel ?d nc (of_nat (length ?d) / of_nat nc) c (xs ! c)])
                                     [0 ..< nc] (channels ?b)\<rparr>)"
      by (rule channel_loop_fold) simp
    also have "fold (\<lambda>c xs. xs[c := fill_channel ?d nc (of_nat (length ?d) / of_nat nc) c (xs ! c)])
                 [0 ..< nc] (channels ?b) = planar ?d nc"
      using nc by (simp add: channels_update_loop planar_def fill_channel_silent)
    finally have "channel_loop ?d nc (of_nat (length ?d) / of_nat nc) [0 ..< nc] ?b =
            Inr \<lparr>numberOfChannels = nc, buffer_length = ?L, sampleRate = rate,
                 channels = planar ?d nc\<rparr>"
      by simp
    with even False view cb show ?thesis
      by (simp add: decodeAudioData_def length_int16_view)
  qed
qed

lemma normalize_sample_range:
  "\<exists>r. normalize_sample (Some w) = Num r \<and> r = of_int (sint w) / 32768 \<and> - 1 \<le> r \<and> r < 1"
proof -
  have "- 32768 \<le> sint w" "sint w < 32768"
    using sint_ge [of w] sint_lt [of w] by simp_all
  then have "- 1 \<le> (of_int (sint w) / 32768 :: rat) \<and> (of_int (sint w) / 32768 :: rat) < 1"
    by (simp del: of_int_sint)
  then have "normalize_sample (Some w) = Num (of_int (sint w) / 32768)
      \<and> (of_int (sint w) / 32768 :: rat) = of_int (sint w) / 32768
      \<and> - 1 \<le> (of_int (sint w) / 32768 :: rat) \<and> (of_int (sint w) / 32768 :: rat) < 1"
    by (simp only: normalize_sample_def option.case simp_thms)
  then show ?thesis by (rule exI)
qed

lemma planar_nth:
  "c < nc \<Longrightarrow> i < length d div nc \<Longrightarrow> planar d nc ! c ! i = normalize_sample (Some (d ! (i * nc + c)))"
  by (simp add: planar_def)

lemma decodeAudioData_Inr:
  assumes "decodeAudioData data ctx rate nc = Inr b"
  shows "even (length data)" and "0 < nc"
    and "b = \<lparr>numberOfChannels = nc, buffer_length = length data div 2 div nc,
               sampleRate = rate, channels = planar (int16_view data) nc\<rparr>"
  using assms by (auto simp: decodeAudioData_eq split: if_splits)

section \<open>Properties of the sample conversion\<close>

text \<open>
  Claim C1, as amended. \<^verbatim>\<open>decodeAudioData\<close> has no length check of its own. The only
  failure on a misaligned payload is the \<^verbatim>\<open>RangeError\<close> that the \<^verbatim>\<open>Int16Array\<close> view raises
  when the byte length is not a multiple of the sample width 2, whatever the channel count.
  For one channel, the way \<^verbatim>\<open>load\<close> calls it, these are exactly the lengths that are not a
  multiple of \<open>2 * channels\<close>.
\<close>

theorem decodeAudioData_odd_length_fails:
  "length data mod 2 \<noteq> 0 \<Longrightarrow> decodeAudioData data ctx rate numChannels = Inl RangeError"
  by (simp add: decodeAudioData_eq odd_iff_mod_2_eq_one)

theorem decodeAudioData_odd_length_fails_witness:
  "length [1, 0, 2 :: byte] mod 2 \<noteq> 0 \<and>
   decodeAudioData [1, 0, 2]
     \<lparr>maxChannels = 32, minRate = 8000, maxRate = 96000, ctx_sampleRate = 24000\<rparr> 24000 1
     = Inl RangeError"
proof -
  have odd: "length [1, 0, 2 :: byte] mod 2 \<noteq> 0" by simp
  from odd decodeAudioData_odd_length_fails [OF odd] show ?thesis by simp
qed

text \<open>
  Claim C1 as stated fails for two channels: six bytes are three samples, that is one frame
  and a half. \<^verbatim>\<open>frameCount\<close> is 1.5, \<^verbatim>\<open>createBuffer\<close> makes a buffer of one frame, the
  writes of the second pass of the inner loop fall outside the arrays and are ignored, and
  the third sample is dropped without an error.
\<close>

theorem decodeAudioData_partial_frame_counterexample:
  "length [1, 0, 2, 0, 3, 0 :: byte] mod (2 * 2) \<noteq> 0 \<and>
   decodeAudioData [1, 0, 2, 0, 3, 0]
     \<lparr>maxChannels = 32, minRate = 8000, maxRate = 96000, ctx_sampleRate = 24000\<rparr> 24000 2
     = Inr \<lparr>numberOfChannels = 2, buffer_length = 1, sampleRate = 24000,
            channels = [[Num (1 / 32768)], [Num (2 / 32768)]]\<rparr>"
  by (simp add: decodeAudioData_eq planar_def normalize_sample_def upt_conv_Cons)

text \<open>
  Claim C2. A sample \<open>w\<close> is stored as \<open>sint w / 32768\<close>, a number in \<open>[-1, 1)\<close>: the
  sample \<open>-32768\<close> gives exactly \<open>-1\<close>, the sample \<open>32767\<close> gives a number below \<open>1\<close>.
  A decoded buffer has a frame for every \<open>numChannels\<close> samples of the input, and every
  cell is the normalized sample of its place in the interleaved input, so every sample of
  a whole frame is converted and nothing is clipped or changed on the way. The buffer is
  decoded whenever the payload has an even length and at least one frame and the host
  supports the channel count and the sample rate.
\<close>

theorem normalized_samples:
  "(\<exists>r. normalize_sample (Some w) = Num r \<and> r = of_int (sint w) / 32768 \<and> - 1 \<le> r \<and> r \<le> 1)
   \<and> normalize_sample (Some (- 32768)) = Num (- 1)
   \<and> normalize_sample (Some 32767) = Num (32767 / 32768) \<and> (32767 / 32768 :: rat) < 1
   \<and> (decodeAudioData data ctx rate numChannels = Inr b \<longrightarrow>
        (\<forall>channel < numChannels. \<forall>i < buffer_length b.
           \<exists>v. typed_get (int16_view data) (i * numChannels + channel) = Some v
              \<and> channels b ! channel ! i = normalize_sample (Some v)))
   \<and> (decodeAudioData data ctx rate numChannels = Inr b \<longrightarrow>
        buffer_length b = length (int16_view data) div numChannels
        \<and> length (int16_view data) = length data div 2
        \<and> length (channels b) = numChannels
        \<and> (\<forall>channel < numChannels. length (channels b ! channel) = buffer_length b))
   \<and> (even (length data) \<and> 0 < numChannels \<and> numChannels \<le> maxChannels ctx
        \<and> numChannels \<le> length data div 2 \<and> minRate ctx \<le> rate \<and> rate \<le> maxRate ctx \<longrightarrow>
        (\<exists>b. decodeAudioData data ctx rate numChannels = Inr b))"
proof (intro conjI)
  show "\<exists>r. normalize_sample (Some w) = Num r \<and> r = of_int (sint w) / 32768 \<and> - 1 \<le> r \<and> r \<le> 1"
  proof -
    from normalize_sample_range [of w] obtain r
      where "normalize_sample (Some w) = Num r" "r = of_int (sint w) / 32768" "- 1 \<le> r" "r < 1"
      by blast
    then have "normalize_sample (Some w) = Num r \<and> r = of_int (sint w) / 32768 \<and> - 1 \<le> r \<and> r \<le> 1"
      by (simp only: less_imp_le simp_thms)
    then show ?thesis by (rule exI)
  qed
  show "normalize_sample (Some (- 32768)) = Num (- 1)"
    by (simp add: normalize_sample_def)
  show "normalize_sample (Some 32767) = Num (32767 / 32768)"
    by (simp add: normalize_sample_def)
  show "(32767 / 32768 :: rat) < 1"
    by simp
next
  show "decodeAudioData data ctx rate numChannels = Inr b \<longrightarrow>
        (\<forall>channel < numChannels. \<forall>i < buffer_length b.
           \<exists>v. typed_get (int16_view data) (i * numChannels + channel) = Some v
              \<and> channels b ! channel ! i = normalize_sample (Some v))"
  proof (intro impI allI)
    fix channel i
    assume dec: "decodeAudioData data ctx rate numChannels = Inr b"
      and c: "channel < numChannels" and i: "i < buffer_length b"
    let ?d = "int16_view data"
    from decodeAudioData_Inr(3) [OF dec]
    have b: "buffer_length b = length ?d div numChannels" "channels b = planar ?d numChannels"
      by (simp_all add: length_int16_view)
    from i b(1) c have "i * numChannels + channel < length ?d"
      by (simp add: frame_index_in_range)
    moreover from i b c have "channels b ! channel ! i = normalize_sample (Some (?d ! (i * numChannels + channel)))"
      by (simp add: planar_nth)
    ultimately show "\<exists>v. typed_get ?d (i * numChannels + channel) = Some v
                \<and> channels b ! channel ! i = normalize_sample (Some v)"
      by (simp add: typed_get_def)
  qed
next
  show "decodeAudioData data ctx rate numChannels = Inr b \<longrightarrow>
        buffer_length b = length (int16_view data) div numChannels
        \<and> length (int16_view data) = length data div 2
        \<and> length (channels b) = numChannels
        \<and> (\<forall>channel < numChannels. length (channels b ! channel) = buffer_length b)"
  proof
    assume dec: "decodeAudioData data ctx rate numChannels = Inr b"
    from decodeAudioData_Inr(3) [OF dec]
    have b: "buffer_length b = length (int16_view data) div numChannels"
      "channels b = planar (int16_view data) numChannels"
      by (simp_all add: length_int16_view)
    then show "buffer_length b = length (int16_view data) div numChannels
        \<and> length (int16_view data) = length data div 2
        \<and> length (channels b) = numChannels
        \<and> (\<forall>channel < numChannels. length (channels b ! channel) = buffer_length b)"
      by (simp add: planar_def length_int16_view)
  qed
next
  show "even (length data) \<and> 0 < numChannels \<and> numChannels \<le> maxChannels ctx
        \<and> numChannels \<le> length data div 2 \<and> minRate ctx \<le> rate \<and> rate \<le> maxRate ctx \<longrightarrow>
        (\<exists>b. decodeAudioData data ctx rate numChannels = Inr b)"
  proof
    assume ok: "even (length data) \<and> 0 < numChannels \<and> numChannels \<le> maxChannels ctx
        \<and> numChannels \<le> length data div 2 \<and> minRate ctx \<le> rate \<and> rate \<le> maxRate ctx"
    then have "0 < length data div 2 div numChannels"
      by (simp add: div_greater_zero_iff)
    with ok show "\<exists>b. decodeAudioData data ctx rate numChannels = Inr b"
      by (simp add: decodeAudioData_eq)
  qed
qed

text \<open>The payload of the scenario of the specification: two mono samples, \<open>-32768\<close> and \<open>32767\<close>.\<close>

theorem normalized_samples_witness:
  "decodeAudioData [0x00, 0x80, 0xFF, 0x7F]
     \<lparr>maxChannels = 32, minRate = 8000, maxRate = 96000, ctx_sampleRate = 24000\<rparr> 24000 1
     = Inr \<lparr>numberOfChannels = 1, buffer_length = 2, sampleRate = 24000,
            channels = [[Num (- 1), Num (32767 / 32768)]]\<rparr>
   \<and> (\<exists>v. typed_get (int16_view [0x00, 0x80, 0xFF, 0x7F]) (1 * 1 + 0) = Some v
          \<and> [[Num (- 1), Num (32767 / 32768)]] ! 0 ! 1 = normalize_sample (Some v))
   \<and> (2 :: nat) = length (int16_view [0x00, 0x80, 0xFF, 0x7F]) div 1
   \<and> even (length [0x00, 0x80, 0xFF, 0x7F :: byte])"
proof -
  let ?ctx = "\<lparr>maxChannels = 32, minRate = 8000, maxRate = 96000, ctx_sampleRate = 24000\<rparr>"
  let ?b = "\<lparr>numberOfChannels = 1, buffer_length = 2, sampleRate = 24000,
            channels = [[Num (- 1), Num (32767 / 32768)]]\<rparr>"
  have dec: "decodeAudioData [0x00, 0x80, 0xFF, 0x7F] ?ctx 24000 1 = Inr ?b"
    by (simp add: decodeAudioData_eq planar_def normalize_sample_def upt_conv_Cons)
  note all = normalized_samples [of 0 "[0x00, 0x80, 0xFF, 0x7F]" ?ctx 24000 1 ?b]
  from all dec
  have cells: "\<forall>channel < (1::nat). \<forall>i < buffer_length ?b.
          \<exists>v. typed_get (int16_view [0x00, 0x80, 0xFF, 0x7F]) (i * 1 + channel) = Some v
             \<and> channels ?b ! channel ! i = normalize_sample (Some v)"
    by blast
  have "\<exists>v. typed_get (int16_view [0x00, 0x80, 0xFF, 0x7F]) (1 * 1 + 0) = Some v
             \<and> channels ?b ! 0 ! 1 = normalize_sample (Some v)"
    by (rule cells [rule_format]) simp_all
  then have cell: "\<exists>v. typed_get (int16_view [0x00, 0x80, 0xFF, 0x7F]) (1 * 1 + 0) = Some v
          \<and> [[Num (- 1), Num (32767 / 32768)]] ! 0 ! 1 = normalize_sample (Some v)"
    by (simp only: audio_buffer.simps)
  from all dec have "buffer_length ?b = length (int16_view [0x00, 0x80, 0xFF, 0x7F]) div 1"
    by blast
  then have frames: "(2 :: nat) = length (int16_view [0x00, 0x80, 0xFF, 0x7F]) div 1"
    by (simp only: audio_buffer.simps)
  have "even (length [0x00, 0x80, 0xFF, 0x7F :: byte])" by simp
  with dec cell frames show ?thesis by (intro conjI)
qed

text \<open>
  Claim C7. When the byte length is a multiple of \<open>2 * channels\<close>, a decoded buffer has
  \<open>byteLength / (2 * channels)\<close> frames, with no remainder, and each of its \<open>channels\<close>
  sample arrays has that length. A buffer is decoded whenever the payload is not empty and
  the host supports the channel count and the sample rate; the host refuses a buffer of
  zero frames, so the empty payload gives no buffer.
\<close>

theorem decodeAudioData_frame_count:
  assumes "length data mod (2 * numChannels) = 0"
  shows "(\<forall>b. decodeAudioData data ctx rate numChannels = Inr b \<longrightarrow>
            buffer_length b = length data div (2 * numChannels)
          \<and> buffer_length b * (2 * numChannels) = length data
          \<and> numberOfChannels b = numChannels
          \<and> length (channels b) = numChannels
          \<and> (\<forall>channelData \<in> set (channels b). length channelData = buffer_length b))
       \<and> (data \<noteq> [] \<and> 0 < numChannels \<and> numChannels \<le> maxChannels ctx
            \<and> minRate ctx \<le> rate \<and> rate \<le> maxRate ctx \<longrightarrow>
          (\<exists>b. decodeAudioData data ctx rate numChannels = Inr b))"
proof (intro conjI allI impI)
  fix b
  assume dec: "decodeAudioData data ctx rate numChannels = Inr b"
  have frames: "length data div 2 div numChannels = length data div (2 * numChannels)"
    by (simp add: div_mult2_eq)
  from decodeAudioData_Inr(3) [OF dec]
  have b: "buffer_length b = length data div (2 * numChannels)"
    "numberOfChannels b = numChannels" "channels b = planar (int16_view data) numChannels"
    by (simp_all add: frames)
  show "buffer_length b = length data div (2 * numChannels)" by (fact b(1))
  show "buffer_length b * (2 * numChannels) = length data"
    using assms b(1) by (metis div_mult_mod_eq add.right_neutral)
  show "numberOfChannels b = numChannels" by (fact b(2))
  show "length (channels b) = numChannels"
    by (simp add: b(3) planar_def)
  show "\<forall>channelData \<in> set (channels b). length channelData = buffer_length b"
    by (auto simp: b(3) b(1) planar_def length_int16_view frames)
next
  assume ok: "data \<noteq> [] \<and> 0 < numChannels \<and> numChannels \<le> maxChannels ctx
            \<and> minRate ctx \<le> rate \<and> rate \<le> maxRate ctx"
  from assms have "even (length data)"
    by (metis dvd_mult_left mod_0_imp_dvd)
  moreover have "length data div 2 div numChannels \<noteq> 0"
  proof -
    from assms ok have "2 * numChannels \<le> length data"
      by (metis length_greater_0_conv mod_0_imp_dvd dvd_imp_le)
    then have "0 < length data div (2 * numChannels)"
      using ok by (simp add: div_greater_zero_iff)
    then show ?thesis by (simp add: div_mult2_eq)
  qed
  ultimately show "\<exists>b. decodeAudioData data ctx rate numChannels = Inr b"
    using ok by (simp add: decodeAudioData_eq)
qed

theorem decodeAudioData_frame_count_witness:
  "length [1, 0, 2, 0, 3, 0, 4, 0 :: byte] mod (2 * 2) = 0
   \<and> decodeAudioData [1, 0, 2, 0, 3, 0, 4, 0]
       \<lparr>maxChannels = 32, minRate = 8000, maxRate = 96000, ctx_sampleRate = 24000\<rparr> 24000 2
       = Inr \<lparr>numberOfChannels = 2, buffer_length = 2, sampleRate = 24000,
              channels = [[Num (1 / 32768), Num (3 / 32768)], [Num (2 / 32768), Num (4 / 32768)]]\<rparr>
   \<and> (2::nat) = length [1, 0, 2, 0, 3, 0, 4, 0 :: byte] div (2 * 2)"
proof -
  let ?data = "[1, 0, 2, 0, 3, 0, 4, 0 :: byte]"
  let ?ctx = "\<lparr>maxChannels = 32, minRate = 8000, maxRate = 96000, ctx_sampleRate = 24000\<rparr>"
  let ?b = "\<lparr>numberOfChannels = 2, buffer_length = 2, sampleRate = 24000,
              channels = [[Num (1 / 32768), Num (3 / 32768)], [Num (2 / 32768), Num (4 / 32768)]]\<rparr>"
  have len: "length ?data mod (2 * 2) = 0" by simp
  have dec: "decodeAudioData ?data ?ctx 24000 2 = Inr ?b"
    by (simp add: decodeAudioData_eq planar_def normalize_sample_def upt_conv_Cons)
  from decodeAudioData_frame_count [OF len, of ?ctx 24000] dec have "buffer_length ?b = length ?data div (2 * 2)"
    by blast
  with len dec show ?thesis by simp
qed

section \<open>Properties of \<^verbatim>\<open>decode\<close>\<close>

lemma those_eq_None_iff: "those (map f xs) = None \<longleftrightarrow> (\<exists>x \<in> set xs. f x = None)"
  by (induction xs) (auto split: option.splits)

lemma length_decode_sextets:
  "length xs mod 4 \<noteq> 1 \<Longrightarrow> length (decode_sextets xs) = 3 * length xs div 4"
proof (induction xs rule: decode_sextets.induct)
  case (1 a b c d rest)
  from "1.prems" have "length rest mod 4 \<noteq> 1"
    by simp
  with "1.IH" have "length (decode_sextets rest) = 3 * length rest div 4"
    by simp
  moreover have "3 * length (a # b # c # d # rest) div 4 = 3 + 3 * length rest div 4"
    by simp
  ultimately show ?case
    by (simp add: Let_def)
qed (simp_all add: Let_def)

lemma in_set_remove_padding:
  assumes "c \<in> set data" "c \<noteq> CHR ''=''"
  shows "c \<in> set (remove_padding data)"
proof -
  have keep: "c \<in> set (butlast xs)" if "c \<in> set xs" "xs \<noteq> []" "last xs = CHR ''=''" for xs
  proof -
    from that(2) have "xs = butlast xs @ [last xs]" by simp
    then have "set xs = set (butlast xs) \<union> {last xs}"
      by (metis set_append list.set(1) list.set(2) Un_insert_right sup_bot.right_neutral insert_is_Un Un_commute)
    with that(1,3) assms(2) show ?thesis by auto
  qed
  show ?thesis
    using assms(1) by (auto simp: remove_padding_def Let_def keep)
qed

lemma in_set_base64_payload:
  assumes "c \<in> set text" "c \<noteq> CHR ''=''" "\<not> is_ascii_whitespace c"
  shows "c \<in> set (base64_payload text)"
proof -
  from assms(1,3) have "c \<in> set (filter (\<lambda>c. \<not> is_ascii_whitespace c) text)"
    by simp
  with assms(2) show ?thesis
    by (simp add: base64_payload_def Let_def in_set_remove_padding)
qed

text \<open>The copying loop of \<^verbatim>\<open>decode\<close> gives the character codes of the binary string.\<close>

lemma decode_eq:
  "decode text = (case atob text of Inl e \<Rightarrow> Inl e
                  | Inr binaryString \<Rightarrow> Inr (map (\<lambda>c. of_nat (of_char c)) binaryString))"
proof (cases "atob text")
  case (Inl e)
  then show ?thesis by (simp add: decode_def)
next
  case (Inr str)
  have "fold (\<lambda>i bytes. typed_set bytes i (to_uint8 (charCodeAt str i))) [0 ..< length str]
          (replicate (length str) 0) = map (\<lambda>c. of_nat (of_char c)) str"
    by (intro nth_equalityI) (simp_all add: typed_set_loop charCodeAt_def to_uint8_def)
  with Inr show ?thesis by (simp add: decode_def)
qed

lemma atob_eq:
  "atob text =
     (if length (base64_payload text) mod 4 = 1
         \<or> (\<exists>c \<in> set (base64_payload text). base64_index c = None)
      then Inl InvalidCharacterError
      else Inr (map char_of (decode_sextets (map (\<lambda>c. the (base64_index c)) (base64_payload text)))))"
proof (cases "\<exists>c \<in> set (base64_payload text). base64_index c = None")
  case True
  then have "those (map base64_index (base64_payload text)) = None"
    by (simp only: those_eq_None_iff)
  with True show ?thesis
    by (simp add: atob_def forgiving_base64_decode_def Let_def)
next
  case False
  have found: "those (map base64_index xs) = Some (map (\<lambda>c. the (base64_index c)) xs)"
    if "\<forall>c \<in> set xs. base64_index c \<noteq> None" for xs
    using that by (induction xs) auto
  from False have "\<forall>c \<in> set (base64_payload text). base64_index c \<noteq> None"
    by simp
  then have "those (map base64_index (base64_payload text)) =
      Some (map (\<lambda>c. the (base64_index c)) (base64_payload text))"
    by (rule found)
  with False show ?thesis
    by (simp add: atob_def forgiving_base64_decode_def Let_def)
qed

lemma decode_cases:
  "decode text =
     (if length (base64_payload text) mod 4 = 1
         \<or> (\<exists>c \<in> set (base64_payload text). base64_index c = None)
      then Inl InvalidCharacterError
      else Inr (map (\<lambda>c. of_nat (of_char c))
             (map char_of (decode_sextets (map (\<lambda>c. the (base64_index c)) (base64_payload text))))))"
  by (simp add: decode_eq atob_eq)

lemma example_decode: "decode ''AID/fw=='' = Inr [0x00, 0x80, 0xFF, 0x7F]"
  by (simp add: decode_def atob_def forgiving_base64_decode_def base64_payload_def
      remove_padding_def base64_index_def is_ascii_whitespace_def typed_set_def charCodeAt_def
      to_uint8_def upt_conv_Cons)

subsection \<open>Decoding an encoded text\<close>

lemma of_char_base64_char:
  "n < 64 \<Longrightarrow> (of_char (base64_char n) :: nat) =
     (if n < 26 then n + 65 else if n < 52 then n + 71 else if n < 62 then n - 4
      else if n = 62 then 43 else 47)"
  by (simp add: base64_char_def)

lemma base64_index_char: "n < 64 \<Longrightarrow> base64_index (base64_char n) = Some n"
  unfolding base64_index_def Let_def by (auto simp: of_char_base64_char)

lemma base64_char_plain:
  "n < 64 \<Longrightarrow> base64_char n \<noteq> CHR ''='' \<and> \<not> is_ascii_whitespace (base64_char n)"
proof -
  assume n: "n < 64"
  have "(of_char (base64_char n) :: nat) \<noteq> 61"
    using n by (auto simp: of_char_base64_char)
  moreover have "(of_char CHR ''='' :: nat) = 61" by simp
  ultimately have "base64_char n \<noteq> CHR ''=''" by metis
  moreover have "\<not> is_ascii_whitespace (base64_char n)"
    using n by (auto simp: is_ascii_whitespace_def of_char_base64_char)
  ultimately show ?thesis by simp
qed

lemma encode_sextets_bound:
  "\<forall>b \<in> set bs. b < 256 \<Longrightarrow> \<forall>s \<in> set (encode_sextets bs). s < 64"
proof (induction bs rule: encode_sextets.induct)
  case (1 x y z rest)
  then have "x < 256" "y < 256" "z < 256" by simp_all
  then have "((x * 256 + y) * 256 + z) div 262144 < 64" by simp
  with 1 show ?case by (simp add: Let_def)
next
  case (2 x y)
  then have "x < 256" "y < 256" by simp_all
  then have "(x * 256 + y) * 4 div 4096 < 64" by simp
  then show ?case by (simp add: Let_def)
next
  case (3 x)
  then have "x * 16 div 64 < 64" by simp
  then show ?case by (simp add: Let_def)
qed simp

lemma join4:
  fixes n :: nat
  shows "((n div 262144 * 64 + n div 4096 mod 64) * 64 + n div 64 mod 64) * 64 + n mod 64 = n"
proof -
  have "n div 4096 = n div 64 div 64" "n div 262144 = n div 64 div 64 div 64"
    by (simp_all add: div_mult2_eq)
  then show ?thesis by simp
qed

lemma join3:
  fixes n :: nat
  shows "(n div 4096 * 64 + n div 64 mod 64) * 64 + n mod 64 = n"
proof -
  have "n div 4096 = n div 64 div 64"
    by (simp add: div_mult2_eq)
  then show ?thesis by simp
qed

lemma split3:
  fixes x y z :: nat
  assumes "y < 256" "z < 256"
  shows "((x * 256 + y) * 256 + z) div 65536 = x"
    and "((x * 256 + y) * 256 + z) div 256 mod 256 = y"
    and "((x * 256 + y) * 256 + z) mod 256 = z"
proof -
  have d: "((x * 256 + y) * 256 + z) div 256 = x * 256 + y"
    using assms(2) by simp
  have "((x * 256 + y) * 256 + z) div 65536 = ((x * 256 + y) * 256 + z) div 256 div 256"
    by (simp add: div_mult2_eq)
  with d assms(1) show "((x * 256 + y) * 256 + z) div 65536 = x" by simp
  from d assms(1) show "((x * 256 + y) * 256 + z) div 256 mod 256 = y" by simp
  from assms(2) show "((x * 256 + y) * 256 + z) mod 256 = z"
    by (simp only: mod_mult_self3 mod_less)
qed

lemma split2:
  fixes x y :: nat
  assumes "y < 256"
  shows "(x * 256 + y) * 4 div 4 div 256 = x" and "(x * 256 + y) * 4 div 4 mod 256 = y"
  using assms by simp_all


lemma decode_encode_sextets:
  "\<forall>b \<in> set bs. b < 256 \<Longrightarrow> decode_sextets (encode_sextets bs) = bs"
proof (induction bs rule: encode_sextets.induct)
  case (1 x y z rest)
  then have b: "y < 256" "z < 256" and rest: "decode_sextets (encode_sextets rest) = rest"
    by simp_all
  define n where "n = (x * 256 + y) * 256 + z"
  have "decode_sextets (encode_sextets (x # y # z # rest)) =
      decode_sextets (n div 262144 # n div 4096 mod 64 # n div 64 mod 64 # n mod 64
                      # encode_sextets rest)"
    by (simp only: encode_sextets.simps Let_def n_def)
  also have "\<dots> = n div 65536 # n div 256 mod 256 # n mod 256 # decode_sextets (encode_sextets rest)"
    by (simp only: decode_sextets.simps Let_def join4)
  also have "\<dots> = x # y # z # rest"
    unfolding n_def by (simp only: split3 [OF b] rest)
  finally show ?case .
next
  case (2 x y)
  then have b: "y < 256" by simp
  define n where "n = (x * 256 + y) * 4"
  have "decode_sextets (encode_sextets [x, y]) =
      decode_sextets [n div 4096, n div 64 mod 64, n mod 64]"
    by (simp only: encode_sextets.simps Let_def n_def)
  also have "\<dots> = [n div 4 div 256, n div 4 mod 256]"
    by (simp only: decode_sextets.simps Let_def join3)
  also have "\<dots> = [x, y]"
    unfolding n_def by (simp only: split2 [OF b])
  finally show ?case .
next
  case (3 x)
  define n where "n = x * 16"
  have "decode_sextets (encode_sextets [x]) = decode_sextets [n div 64, n mod 64]"
    by (simp only: encode_sextets.simps Let_def n_def)
  also have "\<dots> = [n div 16]"
    by (simp only: decode_sextets.simps div_mult_mod_eq)
  also have "\<dots> = [x]"
    unfolding n_def by simp
  finally show ?case .
next
  case 4
  show ?case by simp
qed

lemma length_encode_sextets:
  "length (encode_sextets bs) = 4 * (length bs div 3) + (if length bs mod 3 = 0 then 0 else length bs mod 3 + 1)"
  by (induction bs rule: encode_sextets.induct) (simp_all add: Let_def)

lemma unat_byte: "unat (b :: byte) < 256"
  using unsigned_less [of b, where 'a = nat] by simp

lemma remove_padding_encoded:
  assumes "CHR ''='' \<notin> set xs" and "p \<le> 2"
  shows "remove_padding (xs @ replicate p CHR ''='') = xs"
proof -
  have plain: "ys = [] \<or> last ys \<noteq> CHR ''=''" if "CHR ''='' \<notin> set ys" for ys :: string
    using that by (cases ys rule: rev_cases) auto
  from assms(2) consider "p = 0" | "p = 1" | "p = 2" by linarith
  then show ?thesis
  proof cases
    case 1
    with plain [OF assms(1)] show ?thesis by (auto simp: remove_padding_def)
  next
    case 2
    with plain [OF assms(1)] show ?thesis by (auto simp: remove_padding_def Let_def)
  next
    case 3
    then have "xs @ replicate p CHR ''='' = (xs @ ''='') @ ''=''"
      by (simp add: numeral_2_eq_2)
    then show ?thesis by (simp add: remove_padding_def Let_def del: append_assoc)
  qed
qed

lemma base64_payload_encode:
  "base64_payload (base64_encode bytes) = map base64_char (encode_sextets (map unat bytes))"
proof -
  let ?sextets = "encode_sextets (map unat bytes)"
  let ?p = "(3 - length bytes mod 3) mod 3"
  have small: "\<forall>s \<in> set ?sextets. s < 64"
    by (rule encode_sextets_bound) (simp add: unat_byte)
  then have plain: "CHR ''='' \<notin> set (map base64_char ?sextets)"
    and nows: "\<forall>c \<in> set (map base64_char ?sextets). \<not> is_ascii_whitespace c"
    by (fastforce dest: base64_char_plain)+
  have "\<not> is_ascii_whitespace CHR ''=''"
    by (simp add: is_ascii_whitespace_def)
  with nows have keep: "filter (\<lambda>c. \<not> is_ascii_whitespace c) (base64_encode bytes) = base64_encode bytes"
    by (auto simp: base64_encode_def)
  have "length (base64_encode bytes) mod 4 = 0"
    by (simp add: base64_encode_def length_encode_sextets; presburger)
  moreover have "remove_padding (base64_encode bytes) = map base64_char ?sextets"
    unfolding base64_encode_def using plain by (rule remove_padding_encoded) simp
  ultimately show ?thesis
    by (simp add: base64_payload_def Let_def keep)
qed

text \<open>\<^verbatim>\<open>decode\<close> gives back the bytes of every encoded text.\<close>

lemma decode_base64_encode: "decode (base64_encode bytes) = Inr bytes"
proof -
  let ?sextets = "encode_sextets (map unat bytes)"
  have bytes: "\<forall>b \<in> set (map unat bytes). b < 256"
    by (simp add: unat_byte)
  then have small: "\<forall>s \<in> set ?sextets. s < 64"
    by (rule encode_sextets_bound)
  have len: "length (map base64_char ?sextets) mod 4 \<noteq> 1"
    by (simp add: length_encode_sextets; presburger)
  have idx: "map (\<lambda>c. the (base64_index c)) (map base64_char ?sextets) = ?sextets"
    using small by (simp add: base64_index_char map_idI)
  have found: "\<not> (\<exists>c \<in> set (map base64_char ?sextets). base64_index c = None)"
    using small by (auto simp: base64_index_char)
  have same: "map (\<lambda>c. of_nat (of_char c)) (map char_of (map unat bytes)) = bytes"
    by (simp add: map_idI unat_byte)
  from len found show ?thesis
    by (simp only: decode_cases base64_payload_encode idx decode_encode_sextets [OF bytes] same
        simp_thms if_False)
qed

lemma uint8_mod_256: "(of_nat (n mod 256) :: byte) = of_nat n"
  by (simp add: word_of_nat_eq_iff take_bit_eq_mod)

text \<open>
  Claim C6, as amended. \<^verbatim>\<open>decode\<close> has no check of its own and fails exactly where \<^verbatim>\<open>atob\<close>
  does, with \<^verbatim>\<open>InvalidCharacterError\<close>: when, after the whitespace and the one or two
  closing \<^verbatim>\<open>=\<close> of a text of a multiple of 4 characters are removed, the length is 1 modulo 4
  or a character is outside the alphabet. So a character that is neither of the alphabet
  nor \<^verbatim>\<open>=\<close> nor whitespace makes it fail, and so does a \<^verbatim>\<open>=\<close> that is left. In every other
  case it returns the decoded bytes: the 6-bit values of the characters read 8 bits at a
  time, 3 bytes for every 4 characters, each stored as it is. In particular the base64
  encoding of a byte sequence decodes to that byte sequence. The empty text is such a
  case: it decodes to no bytes.
\<close>

theorem decode_outcome:
  "(decode text = Inl InvalidCharacterError \<longleftrightarrow>
      length (base64_payload text) mod 4 = 1
      \<or> (\<exists>c \<in> set (base64_payload text). base64_index c = None))
   \<and> (\<forall>e. decode text = Inl e \<longrightarrow> e = InvalidCharacterError)
   \<and> ((\<exists>c \<in> set text. base64_index c = None \<and> c \<noteq> CHR ''='' \<and> \<not> is_ascii_whitespace c) \<longrightarrow>
        decode text = Inl InvalidCharacterError)
   \<and> (CHR ''='' \<in> set (base64_payload text) \<longrightarrow> decode text = Inl InvalidCharacterError)
   \<and> (\<forall>bytes. decode text = Inr bytes \<longrightarrow> length bytes = 3 * length (base64_payload text) div 4)
   \<and> decode [] = Inr []
   \<and> (\<forall>bytes. decode text = Inr bytes \<longrightarrow>
        (\<exists>sextets. map base64_index (base64_payload text) = map Some sextets
            \<and> bytes = map of_nat (decode_sextets sextets)))
   \<and> decode (base64_encode payload) = Inr payload"
proof (intro conjI allI impI)
  show "decode text = Inl InvalidCharacterError \<longleftrightarrow>
      length (base64_payload text) mod 4 = 1
      \<or> (\<exists>c \<in> set (base64_payload text). base64_index c = None)"
    by (simp add: decode_cases)
next
  fix e assume "decode text = Inl e"
  then show "e = InvalidCharacterError"
    by (simp add: decode_cases split: if_splits)
next
  assume "\<exists>c \<in> set text. base64_index c = None \<and> c \<noteq> CHR ''='' \<and> \<not> is_ascii_whitespace c"
  then obtain c where "c \<in> set text" "base64_index c = None" "c \<noteq> CHR ''=''" "\<not> is_ascii_whitespace c"
    by blast
  then have "c \<in> set (base64_payload text)" "base64_index c = None"
    by (simp_all add: in_set_base64_payload)
  then have "\<exists>c \<in> set (base64_payload text). base64_index c = None"
    by blast
  then show "decode text = Inl InvalidCharacterError"
    by (simp add: decode_cases)
next
  assume "CHR ''='' \<in> set (base64_payload text)"
  moreover have "base64_index CHR ''='' = None"
    by (simp add: base64_index_def)
  ultimately have "\<exists>c \<in> set (base64_payload text). base64_index c = None"
    by blast
  then show "decode text = Inl InvalidCharacterError"
    by (simp add: decode_cases)
next
  fix bytes assume "decode text = Inr bytes"
  then have ok: "length (base64_payload text) mod 4 \<noteq> 1"
    and bytes: "bytes = map (\<lambda>c. of_nat (of_char c))
             (map char_of (decode_sextets (map (\<lambda>c. the (base64_index c)) (base64_payload text))))"
    by (simp_all add: decode_cases split: if_splits)
  from ok have "length (decode_sextets (map (\<lambda>c. the (base64_index c)) (base64_payload text))) =
      3 * length (base64_payload text) div 4"
    by (simp add: length_decode_sextets)
  with bytes show "length bytes = 3 * length (base64_payload text) div 4"
    by simp
next
  show "decode [] = Inr []"
    by (simp add: decode_cases base64_payload_def remove_padding_def)
next
  fix bytes assume dec: "decode text = Inr bytes"
  let ?sextets = "map (\<lambda>c. the (base64_index c)) (base64_payload text)"
  from dec have found: "\<forall>c \<in> set (base64_payload text). base64_index c \<noteq> None"
    and bytes: "bytes = map (\<lambda>c. of_nat (of_char c)) (map char_of (decode_sextets ?sextets))"
    by (simp_all add: decode_cases split: if_splits)
  from found have "map base64_index (base64_payload text) = map Some ?sextets"
    by auto
  moreover from bytes have "bytes = map of_nat (decode_sextets ?sextets)"
    by (simp add: uint8_mod_256)
  ultimately show "\<exists>sextets. map base64_index (base64_payload text) = map Some sextets
            \<and> bytes = map of_nat (decode_sextets sextets)"
    by blast
next
  show "decode (base64_encode payload) = Inr payload"
    by (rule decode_base64_encode)
qed

theorem decode_outcome_witness:
  "decode ''ab!c'' = Inl InvalidCharacterError
   \<and> decode ''YQ='' = Inl InvalidCharacterError
   \<and> decode ''AID/fw=='' = Inr [0x00, 0x80, 0xFF, 0x7F]
   \<and> length [0x00, 0x80, 0xFF, 0x7F :: byte] = 3 * length (base64_payload ''AID/fw=='') div 4
   \<and> base64_encode [0x00, 0x80, 0xFF, 0x7F] = ''AID/fw==''
   \<and> decode (base64_encode [0x00, 0x80, 0xFF, 0x7F]) = Inr [0x00, 0x80, 0xFF, 0x7F]"
proof -
  have "\<exists>c \<in> set ''ab!c''. base64_index c = None \<and> c \<noteq> CHR ''='' \<and> \<not> is_ascii_whitespace c"
    by (simp add: base64_index_def is_ascii_whitespace_def)
  with decode_outcome [of "''ab!c''"] have 1: "decode ''ab!c'' = Inl InvalidCharacterError"
    by blast
  have "CHR ''='' \<in> set (base64_payload ''YQ='')"
    by (simp add: base64_payload_def is_ascii_whitespace_def)
  with decode_outcome [of "''YQ=''"] have 2: "decode ''YQ='' = Inl InvalidCharacterError"
    by blast
  from decode_outcome [of "''AID/fw==''"] example_decode
  have 3: "length [0x00, 0x80, 0xFF, 0x7F :: byte] = 3 * length (base64_payload ''AID/fw=='') div 4"
    by blast
  have u: "map unat [0x00, 0x80, 0xFF, 0x7F :: byte] = [0, 128, 255, 127]"
    by simp
  have e: "encode_sextets [0, 128, 255, 127] = [0, 8, 3, 63, 31, 48]"
    by (simp add: Let_def)
  have c: "map base64_char [0, 8, 3, 63, 31, 48] = ''AID/fw''"
    by (simp add: base64_char_def char_of_eq_iff)
  have p: "replicate ((3 - length [0x00, 0x80, 0xFF, 0x7F :: byte] mod 3) mod 3) CHR ''='' = ''==''"
    by (simp add: numeral_2_eq_2)
  have 4: "base64_encode [0x00, 0x80, 0xFF, 0x7F] = ''AID/fw==''"
    unfolding base64_encode_def u e c p by simp
  from decode_outcome [of "[]" "[0x00, 0x80, 0xFF, 0x7F]"]
  have 5: "decode (base64_encode [0x00, 0x80, 0xFF, 0x7F]) = Inr [0x00, 0x80, 0xFF, 0x7F]"
    by blast
  from 1 2 example_decode 3 4 5 show ?thesis by (intro conjI)
qed

text \<open>Claim C6 as stated fails on the empty text, which does not raise an error.\<close>

theorem decode_empty_counterexample: "decode [] = Inr []"
  by (simp add: decode_def atob_def forgiving_base64_decode_def base64_payload_def
      remove_padding_def)

section \<open>Properties of the playback controller\<close>

subsection \<open>The methods in closed form\<close>

lemma nth_list_update_total:
  "(xs[m := y]) ! n = (if m = n \<and> m < length xs then y else xs ! n)"
  by (cases "m < length xs") (auto simp: nth_list_update list_update_beyond)

lemma stop_Some:
  "sourceNode s = Some n \<Longrightarrow>
   stop s = s\<lparr>nodes := (nodes s)[n := (nodes s ! n)\<lparr>onended := False, stopped := True\<rparr>],
              sourceNode := None\<rparr>"
  by (cases "n < length (nodes s)") (simp_all add: stop_def update_node_def Let_def list_update_beyond)

lemma stop_None: "sourceNode s = None \<Longrightarrow> stop s = s"
  by (simp add: stop_def)

lemma play_Some:
  "audioBuffer s = Some b \<Longrightarrow>
   play s = (stop s)\<lparr>nodes := nodes (stop s) @ [started_node b],
                     sourceNode := Some (length (nodes s))\<rparr>"
  by (cases "sourceNode s")
     (simp_all add: play_def play_call_def stop_Some stop_None update_node_def
        createBufferSource_def started_node_def)

lemma play_None:
  "audioBuffer s = None \<Longrightarrow>
   play s = s\<lparr>events := events s @ [ConsoleError ''Audio not loaded yet.'']\<rparr>"
  by (simp add: play_def play_call_def)

lemma play_call_None:
  "audioBuffer s = None \<Longrightarrow>
   play_call s = (Inr (), s\<lparr>events := events s @ [ConsoleError ''Audio not loaded yet.'']\<rparr>)"
  by (simp add: play_call_def)

lemma stop_fields:
  "events (stop s) = events s" "audioBuffer (stop s) = audioBuffer s"
  "sourceNode (stop s) = None" "length (nodes (stop s)) = length (nodes s)"
  "onEndedCallback (stop s) = onEndedCallback s"
  by (cases "sourceNode s"; simp add: stop_None stop_Some)+

lemma play_fields:
  "audioBuffer (play s) = audioBuffer s" "onEndedCallback (play s) = onEndedCallback s"
  by (cases "audioBuffer s"; simp add: play_None play_Some stop_fields)+

lemma dispatch_ended_fields:
  "audioBuffer (dispatch_ended n s) = audioBuffer s"
  "onEndedCallback (dispatch_ended n s) = onEndedCallback s"
  by (simp_all add: dispatch_ended_def onended_handler_def update_node_def Let_def
      split: option.splits)

lemma load_fields:
  assumes "load s = Inr s'"
  shows "events s' = events s" "nodes s' = nodes s" "sourceNode s' = sourceNode s"
    "onEndedCallback s' = onEndedCallback s"
  using assms by (auto simp: load_def split: if_splits sum.splits)

lemma load_loaded: "audioBuffer s = Some b \<Longrightarrow> load s = Inr s"
  by (simp add: load_def)

lemma load_Inr_buffer:
  assumes "load s = Inr s'"
  shows "audioBuffer s' \<noteq> None"
  using assms by (auto simp: load_def split: if_splits sum.splits)

lemma status_of_simps:
  "status_of s = Unloaded \<longleftrightarrow> audioBuffer s = None"
  "status_of s = Playing \<longleftrightarrow> audioBuffer s \<noteq> None \<and> sourceNode s \<noteq> None"
  "status_of s = Loaded \<longleftrightarrow> audioBuffer s \<noteq> None \<and> sourceNode s = None"
  by (auto simp: status_of_def split: option.splits)

subsection \<open>What every history preserves\<close>

lemma fired_for_append: "fired_for n (xs @ ys) = fired_for n xs @ fired_for n ys"
  by (induction n xs rule: fired_for.induct) simp_all

lemma quiet_stop: "quiet n s \<Longrightarrow> quiet n (stop s)"
  by (cases "sourceNode s") (auto simp: quiet_def stop_None stop_Some nth_list_update_total)

lemma quiet_play: "quiet n s \<Longrightarrow> quiet n (play s)"
proof (cases "audioBuffer s")
  case None
  assume "quiet n s"
  with None show ?thesis by (simp add: play_None quiet_def)
next
  case (Some b)
  assume "quiet n s"
  then have "quiet n (stop s)" by (rule quiet_stop)
  then show ?thesis
    by (simp add: play_Some [OF Some] quiet_def nth_append)
qed

lemma fired_play: "fired_for n (events (play s)) = fired_for n (events s)"
  by (cases "audioBuffer s") (simp_all add: play_None play_Some stop_fields fired_for_append)

lemma quiet_load: "load s = Inr s' \<Longrightarrow> quiet n s' = quiet n s"
  by (simp add: quiet_def load_fields)

lemma quiet_onEnded: "quiet n (onEnded callback s) = quiet n s"
  by (simp add: quiet_def onEnded_def)

lemma quiet_dispatch: "quiet n s \<Longrightarrow> quiet n (dispatch_ended m s)"
  by (auto simp: quiet_def dispatch_ended_def onended_handler_def update_node_def Let_def
      nth_list_update_total split: option.splits)

lemma fired_dispatch:
  "quiet n s \<Longrightarrow> fired_for n (events (dispatch_ended m s)) = fired_for n (events s)"
  by (auto simp: quiet_def dispatch_ended_def onended_handler_def update_node_def Let_def
      nth_list_update_total fired_for_append split: option.splits)

lemma quiet_step: "quiet n s \<Longrightarrow> quiet n (step a s)"
  by (cases a)
     (simp_all add: quiet_play quiet_stop quiet_dispatch quiet_load quiet_onEnded split: sum.splits)

lemma fired_step: "quiet n s \<Longrightarrow> fired_for n (events (step a s)) = fired_for n (events s)"
  by (cases a)
     (auto simp: fired_play stop_fields fired_dispatch load_fields onEnded_def split: sum.splits)

text \<open>Once a node is quiet, no history calls a callback for its session again.\<close>

lemma quiet_run:
  "quiet n s \<Longrightarrow>
   quiet n (run acts s) \<and> fired_for n (events (run acts s)) = fired_for n (events s)"
  unfolding run_def
proof (induction acts arbitrary: s)
  case Nil
  then show ?case by simp
next
  case (Cons a acts)
  from Cons.prems have "quiet n (step a s)" by (rule quiet_step)
  from Cons.IH [OF this] fired_step [OF Cons.prems, of a] show ?case by simp
qed

lemma call_of_ended_mono:
  assumes "call_of_ended ns e" and "length ns \<le> length ns'"
    and "\<And>m. m < length ns \<Longrightarrow> ended (ns ! m) \<Longrightarrow> ended (ns' ! m)"
  shows "call_of_ended ns' e"
  using assms by (cases e) auto

lemma calls_of_ended_mono:
  assumes "list_all (call_of_ended ns) evs" and "length ns \<le> length ns'"
    and "\<And>m. m < length ns \<Longrightarrow> ended (ns ! m) \<Longrightarrow> ended (ns' ! m)"
  shows "list_all (call_of_ended ns') evs"
  using assms(1) call_of_ended_mono [OF _ assms(2,3)] by (auto simp: list_all_iff)

lemma not_ended_not_fired:
  "list_all (call_of_ended ns) evs \<Longrightarrow> n < length ns \<Longrightarrow> \<not> ended (ns ! n) \<Longrightarrow>
   fired_for n evs = []"
  by (induction n evs rule: fired_for.induct) auto

lemma wellformed_not_fired:
  "wellformed s \<Longrightarrow> sourceNode s = Some n \<Longrightarrow> fired_for n (events s) = []"
  by (auto simp: wellformed_def intro: not_ended_not_fired)

lemma calls_stop: "list_all (call_of_ended (nodes s)) (events s) \<Longrightarrow>
    list_all (call_of_ended (nodes (stop s))) (events s)"
  by (erule calls_of_ended_mono)
     (cases "sourceNode s"; simp add: stop_None stop_Some nth_list_update_total)+

lemma wellformed_step: "wellformed s \<Longrightarrow> wellformed (step a s)"
proof (cases a)
  case Load
  assume "wellformed s"
  then show ?thesis
    by (auto simp: Load wellformed_def load_def split: sum.splits option.splits if_splits)
next
  case Play
  assume wf: "wellformed s"
  show ?thesis
  proof (cases "audioBuffer s")
    case None
    with wf show ?thesis by (simp add: Play play_None wellformed_def split: option.splits)
  next
    case (Some b)
    from wf have "list_all (call_of_ended (nodes (stop s))) (events s)"
      by (simp add: wellformed_def calls_stop)
    then have "list_all (call_of_ended (nodes (stop s) @ [started_node b])) (events s)"
      by (rule calls_of_ended_mono) (simp_all add: nth_append)
    with Some show ?thesis
      by (simp add: Play play_Some [OF Some] wellformed_def stop_fields nth_append started_node_def)
  qed
next
  case Stop
  assume "wellformed s"
  then show ?thesis by (simp add: Stop wellformed_def stop_fields calls_stop)
next
  case (OnEnded callback)
  assume "wellformed s"
  then show ?thesis by (simp add: OnEnded wellformed_def onEnded_def split: option.splits)
next
  case (Ended m)
  assume wf: "wellformed s"
  let ?ns = "(nodes s)[m := (nodes s ! m)\<lparr>ended := True\<rparr>]"
  from wf have "list_all (call_of_ended (nodes s)) (events s)"
    by (simp add: wellformed_def)
  then have calls: "list_all (call_of_ended ?ns) (events s)"
    by (rule calls_of_ended_mono) (simp_all add: nth_list_update_total)
  from wf have session: "case sourceNode s of None \<Rightarrow> True
       | Some n \<Rightarrow> audioBuffer s \<noteq> None \<and> n < length (nodes s) \<and> onended (nodes s ! n)
                   \<and> start_offset (nodes s ! n) \<noteq> None \<and> \<not> ended (nodes s ! n)"
    by (simp add: wellformed_def)
  show ?thesis
  proof (cases "m < length (nodes s) \<and> start_offset (nodes s ! m) \<noteq> None \<and> \<not> ended (nodes s ! m)")
    case False
    with wf show ?thesis by (auto simp: Ended dispatch_ended_def)
  next
    case True
    show ?thesis
    proof (cases "onended (nodes s ! m)")
      case handler: True
      with True have "dispatch_ended m s =
          s\<lparr>nodes := ?ns, sourceNode := None,
            events := (case onEndedCallback s of
                         None \<Rightarrow> events s
                       | Some callback \<Rightarrow> events s @ [CallbackInvoked m callback None])\<rparr>"
        by (cases "onEndedCallback s")
           (simp_all add: dispatch_ended_def onended_handler_def update_node_def)
      with True calls show ?thesis
        by (cases "onEndedCallback s") (simp_all add: Ended wellformed_def)
    next
      case False
      with True calls session show ?thesis
        by (auto simp: Ended wellformed_def dispatch_ended_def update_node_def
            nth_list_update_total split: option.splits)
    qed
  qed
qed

lemma wellformed_run: "wellformed s \<Longrightarrow> wellformed (run acts s)"
  unfolding run_def by (induction acts arbitrary: s) (simp_all add: wellformed_step)

lemma wellformed_AudioPlayer: "AudioPlayer host base64 = Inr p \<Longrightarrow> wellformed p"
  by (auto simp: AudioPlayer_def wellformed_def split: sum.splits)

lemma audioBuffer_step: "audioBuffer s = Some b \<Longrightarrow> audioBuffer (step a s) = Some b"
  by (cases a) (simp_all add: load_loaded play_fields stop_fields dispatch_ended_fields onEnded_def)

lemma audioBuffer_run: "audioBuffer s = Some b \<Longrightarrow> audioBuffer (run acts s) = Some b"
  unfolding run_def by (induction acts arbitrary: s) (simp_all add: audioBuffer_step)

text \<open>The buffer a \<^verbatim>\<open>load\<close> stores is mono at 24000 Hz, and nothing else stores one.\<close>

lemma load_format:
  assumes "load s = Inr s'" "audioBuffer s = None"
  shows "\<exists>b. audioBuffer s' = Some b \<and> numberOfChannels b = 1 \<and> sampleRate b = 24000
           \<and> length (channels b) = 1"
proof -
  from assms obtain decoded b where "decodeAudioData decoded (audioContext s) 24000 1 = Inr b"
    and s': "s' = s\<lparr>audioBuffer := Some b\<rparr>"
    by (auto simp: load_def split: sum.splits)
  from decodeAudioData_Inr(3) [OF this(1)]
  have "numberOfChannels b = 1 \<and> sampleRate b = 24000 \<and> length (channels b) = 1"
    by (simp add: planar_def)
  with s' show ?thesis by simp
qed

lemma format_step:
  assumes "\<forall>b. audioBuffer s = Some b \<longrightarrow> numberOfChannels b = 1 \<and> sampleRate b = 24000 \<and> length (channels b) = 1"
  shows "\<forall>b. audioBuffer (step a s) = Some b \<longrightarrow> numberOfChannels b = 1 \<and> sampleRate b = 24000 \<and> length (channels b) = 1"
proof (cases a)
  case Load
  show ?thesis
  proof (cases "audioBuffer s")
    case None
    then show ?thesis
      using load_format [of s] by (auto simp: Load split: sum.splits)
  next
    case (Some b)
    with assms show ?thesis by (simp add: Load load_loaded)
  qed
qed (use assms in \<open>simp_all add: play_fields stop_fields dispatch_ended_fields onEnded_def\<close>)

lemma format_run:
  assumes "\<forall>b. audioBuffer s = Some b \<longrightarrow> numberOfChannels b = 1 \<and> sampleRate b = 24000 \<and> length (channels b) = 1"
  shows "\<forall>b. audioBuffer (run acts s) = Some b \<longrightarrow> numberOfChannels b = 1 \<and> sampleRate b = 24000 \<and> length (channels b) = 1"
  using assms unfolding run_def
proof (induction acts arbitrary: s)
  case Nil
  then show ?case by simp
next
  case (Cons a acts)
  from format_step [OF Cons.prems] have "\<forall>b. audioBuffer (step a s) = Some b \<longrightarrow>
      numberOfChannels b = 1 \<and> sampleRate b = 24000 \<and> length (channels b) = 1" .
  from Cons.IH [OF this] show ?case by simp
qed

subsection \<open>The example player\<close>

lemma example_decodeAudioData:
  "decodeAudioData [0x00, 0x80, 0xFF, 0x7F] example_context 24000 1 = Inr example_buffer"
  by (simp add: decodeAudioData_eq planar_def normalize_sample_def upt_conv_Cons)

lemma example_constructor: "AudioPlayer example_host ''AID/fw=='' = Inr example_new"
  by (simp add: AudioPlayer_def new_AudioContext_def)

lemma example_load: "load (onEnded 1 example_new) = Inr example_loaded"
  using example_decodeAudioData by (simp add: load_def onEnded_def example_decode)

lemma example_play: "play example_loaded = example_playing"
  by (simp add: play_Some stop_None)

lemma example_wellformed:
  "wellformed example_playing" "wellformed example_loaded" "wellformed example_new"
  by (simp_all add: wellformed_def started_node_def)

lemma example_status:
  "status_of example_playing = Playing" "status_of example_loaded = Loaded"
  "status_of example_new = Unloaded"
  by (simp_all add: status_of_def)

subsection \<open>The claims about the controller\<close>

text \<open>
  Claim C3, as amended. \<^verbatim>\<open>play()\<close> on a player without a buffer does not fail towards
  the caller: it writes \<^verbatim>\<open>Audio not loaded yet.\<close> to the error console and returns
  normally, with no exception and no error value. It changes no field: no node is made, no
  callback is called, and the player is still unloaded.
\<close>

theorem play_unloaded:
  "status_of s = Unloaded \<Longrightarrow>
   play_call s = (Inr (), s\<lparr>events := events s @ [ConsoleError ''Audio not loaded yet.'']\<rparr>)
   \<and> play s = s\<lparr>events := events s @ [ConsoleError ''Audio not loaded yet.'']\<rparr>
   \<and> status_of (play s) = Unloaded
   \<and> audioBuffer (play s) = None \<and> sourceNode (play s) = sourceNode s
   \<and> onEndedCallback (play s) = onEndedCallback s \<and> nodes (play s) = nodes s"
  by (simp add: status_of_simps play_None play_call_None)

theorem play_unloaded_witness:
  "status_of example_new = Unloaded
   \<and> play_call example_new =
       (Inr (), example_new\<lparr>events := [ConsoleError ''Audio not loaded yet.'']\<rparr>)
   \<and> play example_new = example_new\<lparr>events := [ConsoleError ''Audio not loaded yet.'']\<rparr>
   \<and> status_of (play example_new) = Unloaded"
proof -
  have unloaded: "status_of example_new = Unloaded" by (fact example_status(3))
  from play_unloaded [OF unloaded]
  have "play_call example_new =
      (Inr (), example_new\<lparr>events := events example_new @ [ConsoleError ''Audio not loaded yet.'']\<rparr>)"
    and "play example_new = example_new\<lparr>events := events example_new @ [ConsoleError ''Audio not loaded yet.'']\<rparr>"
    and after: "status_of (play example_new) = Unloaded"
    by blast+
  then have "play_call example_new =
      (Inr (), example_new\<lparr>events := [ConsoleError ''Audio not loaded yet.'']\<rparr>)"
    "play example_new = example_new\<lparr>events := [ConsoleError ''Audio not loaded yet.'']\<rparr>"
    by simp_all
  with unloaded after show ?thesis by (intro conjI)
qed

text \<open>
  Claim C3 as stated fails on a new player: it is unloaded, and \<^verbatim>\<open>play()\<close> completes
  normally. The caller receives \<^verbatim>\<open>undefined\<close>, not an error; the only report is the line on
  the console.
\<close>

theorem play_unloaded_counterexample:
  "status_of example_new = Unloaded
   \<and> fst (play_call example_new) = Inr ()
   \<and> events (snd (play_call example_new)) = [ConsoleError ''Audio not loaded yet.'']"
  by (simp add: status_of_def play_call_def)

text \<open>
  Claim C4. \<^verbatim>\<open>play()\<close> during a session stops the node of that session with its handler
  taken off, so that in no later history a callback is called for it, and calls no callback
  itself. It then starts a fresh node on the cached buffer from offset 0, and the player is
  playing that node.
\<close>

theorem play_while_playing:
  assumes "wellformed s" and "status_of s = Playing"
  shows "\<exists>n b. sourceNode s = Some n \<and> audioBuffer s = Some b \<and> n < length (nodes s)
           \<and> stopped (nodes (play s) ! n) \<and> \<not> onended (nodes (play s) ! n)
           \<and> events (play s) = events s
           \<and> (\<forall>acts. fired_for n (events (run acts (play s))) = [])
           \<and> sourceNode (play s) = Some (length (nodes s))
           \<and> nodes (play s) ! length (nodes s) = started_node b
           \<and> start_offset (nodes (play s) ! length (nodes s)) = Some 0
           \<and> status_of (play s) = Playing \<and> wellformed (play s)"
proof -
  from assms(2) obtain n b where n: "sourceNode s = Some n" and b: "audioBuffer s = Some b"
    by (auto simp: status_of_simps)
  from assms(1) n have len: "n < length (nodes s)"
    by (simp add: wellformed_def)
  have play: "play s = (stop s)\<lparr>nodes := nodes (stop s) @ [started_node b],
                     sourceNode := Some (length (nodes s))\<rparr>"
    using b by (rule play_Some)
  have old: "stopped (nodes (play s) ! n) \<and> \<not> onended (nodes (play s) ! n)"
    using len by (simp add: play stop_Some [OF n] nth_append)
  with len have "quiet n (play s)"
    by (simp add: quiet_def play stop_fields)
  then have silent: "\<forall>acts. fired_for n (events (run acts (play s))) = fired_for n (events (play s))"
    by (simp add: quiet_run)
  have ev: "events (play s) = events s"
    by (simp add: play stop_fields)
  have new: "nodes (play s) ! length (nodes s) = started_node b"
    by (simp add: play nth_append stop_fields)
  have wf: "wellformed (play s)"
    using wellformed_step [OF assms(1), of Play] by simp
  have src: "sourceNode (play s) = Some (length (nodes s))"
    by (simp add: play)
  with b have st: "status_of (play s) = Playing"
    by (simp add: status_of_simps play_fields)
  from new have off: "start_offset (nodes (play s) ! length (nodes s)) = Some 0"
    by (simp add: started_node_def)
  from silent ev have silent': "\<forall>acts. fired_for n (events (run acts (play s))) = []"
    by (simp add: wellformed_not_fired [OF assms(1) n])
  from n b len old ev silent' src new off st wf show ?thesis
    by blast
qed

theorem play_while_playing_witness:
  "wellformed example_playing \<and> status_of example_playing = Playing
   \<and> sourceNode (play example_playing) = Some 1
   \<and> status_of (play example_playing) = Playing
   \<and> fired_for 0 (events (run [Ended 0, Ended 1, Ended 0] (play example_playing))) = []"
proof -
  from play_while_playing [OF example_wellformed(1) example_status(1)]
  obtain n b where "sourceNode example_playing = Some n"
    and "audioBuffer example_playing = Some b"
    and "\<forall>acts. fired_for n (events (run acts (play example_playing))) = []"
    and "sourceNode (play example_playing) = Some (length (nodes example_playing))"
    and "status_of (play example_playing) = Playing"
    by blast
  then have "fired_for 0 (events (run [Ended 0, Ended 1, Ended 0] (play example_playing))) = []"
    "sourceNode (play example_playing) = Some 1" "status_of (play example_playing) = Playing"
    by simp_all
  with example_wellformed(1) example_status(1) show ?thesis by (intro conjI)
qed

text \<open>
  Claim C5. \<^verbatim>\<open>stop()\<close> during a session takes the handler off the node and stops it: no
  callback is called then or in any later history for that session, and the player is
  loaded. \<^verbatim>\<open>stop()\<close> on a player that is not playing changes nothing.
\<close>

theorem stop_silent:
  assumes "wellformed s"
  shows "(status_of s = Playing \<longrightarrow>
            (\<exists>n. sourceNode s = Some n \<and> stopped (nodes (stop s) ! n)
                \<and> \<not> onended (nodes (stop s) ! n)
                \<and> (\<forall>acts. fired_for n (events (run acts (stop s))) = []))
            \<and> events (stop s) = events s \<and> audioBuffer (stop s) = audioBuffer s
            \<and> status_of (stop s) = Loaded)
       \<and> (status_of s \<noteq> Playing \<longrightarrow> stop s = s)"
proof (intro conjI impI)
  assume playing: "status_of s = Playing"
  then obtain n where n: "sourceNode s = Some n"
    by (auto simp: status_of_simps)
  from assms n have len: "n < length (nodes s)"
    by (simp add: wellformed_def)
  then have old: "stopped (nodes (stop s) ! n)" "\<not> onended (nodes (stop s) ! n)"
    by (simp_all add: stop_Some [OF n])
  with len have "quiet n (stop s)"
    by (simp add: quiet_def stop_fields)
  then have "\<forall>acts. fired_for n (events (run acts (stop s))) = []"
    by (simp add: quiet_run stop_fields wellformed_not_fired [OF assms n])
  with n old show "\<exists>n. sourceNode s = Some n \<and> stopped (nodes (stop s) ! n)
                \<and> \<not> onended (nodes (stop s) ! n)
                \<and> (\<forall>acts. fired_for n (events (run acts (stop s))) = [])"
    by blast
  show "events (stop s) = events s" "audioBuffer (stop s) = audioBuffer s"
    by (simp_all add: stop_fields)
  from playing show "status_of (stop s) = Loaded"
    by (simp add: status_of_simps stop_fields)
next
  assume "status_of s \<noteq> Playing"
  with assms have "sourceNode s = None"
    by (auto simp: status_of_simps wellformed_def split: option.splits)
  then show "stop s = s" by (rule stop_None)
qed

theorem stop_silent_witness:
  "wellformed example_playing \<and> status_of example_playing = Playing
   \<and> status_of (stop example_playing) = Loaded
   \<and> events (stop example_playing) = []
   \<and> fired_for 0 (events (run [Ended 0, Play, Ended 0] (stop example_playing))) = []
   \<and> wellformed example_loaded \<and> status_of example_loaded \<noteq> Playing
   \<and> stop example_loaded = example_loaded
   \<and> wellformed example_new \<and> status_of example_new \<noteq> Playing
   \<and> stop example_new = example_new"
proof -
  from stop_silent [OF example_wellformed(1)] example_status(1)
  have 1: "status_of (stop example_playing) = Loaded" "events (stop example_playing) = []"
    and "\<exists>n. sourceNode example_playing = Some n
          \<and> (\<forall>acts. fired_for n (events (run acts (stop example_playing))) = [])"
    by simp_all
  then have 0: "fired_for 0 (events (run [Ended 0, Play, Ended 0] (stop example_playing))) = []"
    by simp
  have 2: "status_of example_loaded \<noteq> Playing" "status_of example_new \<noteq> Playing"
    by (simp_all add: status_of_def)
  from stop_silent [OF example_wellformed(2)] 2(1) have 3: "stop example_loaded = example_loaded"
    by blast
  from stop_silent [OF example_wellformed(3)] 2(2) have 4: "stop example_new = example_new"
    by blast
  from 0 1 2 3 4 example_wellformed example_status(1) show ?thesis by (intro conjI)
qed

text \<open>
  Claim C8. \<^verbatim>\<open>load()\<close> on a player that has a buffer returns at once and changes nothing,
  so a second \<^verbatim>\<open>load()\<close> after a successful one does not decode again; and once a buffer is
  cached, no history of calls and events replaces it.
\<close>

theorem load_idempotent:
  "(status_of s \<noteq> Unloaded \<longrightarrow> load s = Inr s)
   \<and> (load s = Inr s' \<longrightarrow> load s' = Inr s')
   \<and> (audioBuffer s = Some b \<longrightarrow> (\<forall>acts. audioBuffer (run acts s) = Some b))"
proof (intro conjI impI allI)
  assume "status_of s \<noteq> Unloaded"
  then show "load s = Inr s"
    by (auto simp: status_of_simps load_loaded)
next
  assume "load s = Inr s'"
  then have "audioBuffer s' \<noteq> None" by (rule load_Inr_buffer)
  then show "load s' = Inr s'" by (auto simp: load_loaded)
next
  fix acts assume "audioBuffer s = Some b"
  then show "audioBuffer (run acts s) = Some b" by (rule audioBuffer_run)
qed

theorem load_idempotent_witness:
  "status_of example_loaded \<noteq> Unloaded \<and> load example_loaded = Inr example_loaded
   \<and> load (onEnded 1 example_new) = Inr example_loaded
   \<and> audioBuffer example_loaded = Some example_buffer
   \<and> audioBuffer (run [Load, Play, Load, Stop, Load] example_loaded) = Some example_buffer"
proof -
  have 1: "status_of example_loaded \<noteq> Unloaded" by (simp add: status_of_def)
  have 2: "audioBuffer example_loaded = Some example_buffer" by simp
  from load_idempotent [of example_loaded example_loaded example_buffer] 1 2
  have "load example_loaded = Inr example_loaded"
    "audioBuffer (run [Load, Play, Load, Stop, Load] example_loaded) = Some example_buffer"
    by blast+
  with 1 2 example_load show ?thesis by (intro conjI)
qed

text \<open>
  Claim C9. When the host raises \<^verbatim>\<open>ended\<close> on the node of the session in progress, the
  handler clears \<^verbatim>\<open>sourceNode\<close>, so the player is loaded, and then calls the callback that is
  registered at that moment, once: the callback finds \<^verbatim>\<open>sourceNode\<close> cleared, and no later
  history calls a callback for this session again. A callback registered with
  \<^verbatim>\<open>onEnded\<close> during the session is the one that is called.
\<close>

theorem natural_completion:
  assumes "wellformed s" and "sourceNode s = Some n" and "onEndedCallback s = Some callback"
  shows "events (dispatch_ended n s) = events s @ [CallbackInvoked n callback None]
       \<and> sourceNode (dispatch_ended n s) = None
       \<and> status_of s = Playing \<and> status_of (dispatch_ended n s) = Loaded
       \<and> fired_for n (events s) = []
       \<and> (\<forall>acts. fired_for n (events (run acts (dispatch_ended n s))) = [callback])
       \<and> (\<forall>callback'. events (dispatch_ended n (onEnded callback' s)) =
                    events s @ [CallbackInvoked n callback' None])"
proof -
  from assms(1,2) have live: "audioBuffer s \<noteq> None" "n < length (nodes s)" "onended (nodes s ! n)"
    "start_offset (nodes s ! n) \<noteq> None" "\<not> ended (nodes s ! n)"
    by (simp_all add: wellformed_def)
  have fire: "dispatch_ended n (s\<lparr>onEndedCallback := Some c\<rparr>) =
      s\<lparr>onEndedCallback := Some c,
        nodes := (nodes s)[n := (nodes s ! n)\<lparr>ended := True\<rparr>], sourceNode := None,
        events := events s @ [CallbackInvoked n c None]\<rparr>" for c
    using live by (simp add: dispatch_ended_def update_node_def onended_handler_def)
  from assms(3) have s: "s\<lparr>onEndedCallback := Some callback\<rparr> = s"
    by simp
  from fire [of callback] have d: "dispatch_ended n s =
      s\<lparr>nodes := (nodes s)[n := (nodes s ! n)\<lparr>ended := True\<rparr>], sourceNode := None,
        events := events s @ [CallbackInvoked n callback None]\<rparr>"
    by (simp add: s)
  from live(2) have "quiet n (dispatch_ended n s)"
    by (simp add: quiet_def d)
  then have "\<forall>acts. fired_for n (events (run acts (dispatch_ended n s))) =
      fired_for n (events (dispatch_ended n s))"
    by (simp add: quiet_run)
  moreover have before: "fired_for n (events s) = []"
    using assms(1,2) by (rule wellformed_not_fired)
  ultimately have once: "\<forall>acts. fired_for n (events (run acts (dispatch_ended n s))) = [callback]"
    by (simp add: d fired_for_append)
  have redirect: "\<forall>callback'. events (dispatch_ended n (onEnded callback' s)) =
      events s @ [CallbackInvoked n callback' None]"
    by (simp add: onEnded_def fire)
  from live(1) assms(2) before once redirect show ?thesis
    by (simp add: d status_of_simps)
qed

theorem natural_completion_witness:
  "wellformed example_playing \<and> sourceNode example_playing = Some 0
   \<and> onEndedCallback example_playing = Some 1
   \<and> events (dispatch_ended 0 example_playing) = [CallbackInvoked 0 1 None]
   \<and> status_of (dispatch_ended 0 example_playing) = Loaded
   \<and> fired_for 0 (events (run [Ended 0, Play, Ended 0] (dispatch_ended 0 example_playing))) = [1]
   \<and> events (dispatch_ended 0 (onEnded 2 example_playing)) = [CallbackInvoked 0 2 None]"
proof -
  have 1: "sourceNode example_playing = Some 0" "onEndedCallback example_playing = Some 1"
    by simp_all
  from natural_completion [OF example_wellformed(1) 1]
  have "events (dispatch_ended 0 example_playing) = events example_playing @ [CallbackInvoked 0 1 None]"
    "status_of (dispatch_ended 0 example_playing) = Loaded"
    "fired_for 0 (events (run [Ended 0, Play, Ended 0] (dispatch_ended 0 example_playing))) = [1]"
    "events (dispatch_ended 0 (onEnded 2 example_playing)) =
       events example_playing @ [CallbackInvoked 0 2 None]"
    by blast+
  then have "events (dispatch_ended 0 example_playing) = [CallbackInvoked 0 1 None]"
    "status_of (dispatch_ended 0 example_playing) = Loaded"
    "fired_for 0 (events (run [Ended 0, Play, Ended 0] (dispatch_ended 0 example_playing))) = [1]"
    "events (dispatch_ended 0 (onEnded 2 example_playing)) = [CallbackInvoked 0 2 None]"
    by simp_all
  with example_wellformed(1) 1 show ?thesis by (intro conjI)
qed

text \<open>
  Claim C10. \<^verbatim>\<open>load\<close> passes the constants 24000 and 1 to \<^verbatim>\<open>decodeAudioData\<close>, whatever the
  payload: the buffer a successful \<^verbatim>\<open>load()\<close> stores has one channel and the sample rate
  24000, and so has the buffer of a player in every history from its construction.
\<close>

theorem loaded_buffer_format:
  "(load s = Inr s' \<and> audioBuffer s = None \<longrightarrow>
      (\<exists>b. audioBuffer s' = Some b \<and> numberOfChannels b = 1 \<and> sampleRate b = 24000
          \<and> length (channels b) = 1))
   \<and> (AudioPlayer host base64 = Inr p \<and> audioBuffer (run acts p) = Some b \<longrightarrow>
        numberOfChannels b = 1 \<and> sampleRate b = 24000 \<and> length (channels b) = 1)"
proof (rule conjI)
  show "load s = Inr s' \<and> audioBuffer s = None \<longrightarrow>
      (\<exists>b. audioBuffer s' = Some b \<and> numberOfChannels b = 1 \<and> sampleRate b = 24000
          \<and> length (channels b) = 1)"
    using load_format [of s s'] by blast
next
  show "AudioPlayer host base64 = Inr p \<and> audioBuffer (run acts p) = Some b \<longrightarrow>
        numberOfChannels b = 1 \<and> sampleRate b = 24000 \<and> length (channels b) = 1"
  proof (rule impI)
    assume a: "AudioPlayer host base64 = Inr p \<and> audioBuffer (run acts p) = Some b"
    then have "audioBuffer p = None"
      by (auto simp: AudioPlayer_def split: sum.splits)
    then have "\<forall>b. audioBuffer p = Some b \<longrightarrow>
        numberOfChannels b = 1 \<and> sampleRate b = 24000 \<and> length (channels b) = 1"
      by simp
    from format_run [OF this, of acts] a
    show "numberOfChannels b = 1 \<and> sampleRate b = 24000 \<and> length (channels b) = 1"
      by blast
  qed
qed

theorem loaded_buffer_format_witness:
  "AudioPlayer example_host ''AID/fw=='' = Inr example_new
   \<and> audioBuffer (run [OnEnded 1, Load] example_new) = Some example_buffer
   \<and> numberOfChannels example_buffer = 1 \<and> sampleRate example_buffer = 24000
   \<and> length (channels example_buffer) = 1"
proof -
  have run: "audioBuffer (run [OnEnded 1, Load] example_new) = Some example_buffer"
    using example_load by (simp add: run_def)
  from loaded_buffer_format [of example_new example_new example_host "''AID/fw==''" example_new
      "[OnEnded 1, Load]" example_buffer] example_constructor run
  have "numberOfChannels example_buffer = 1 \<and> sampleRate example_buffer = 24000
      \<and> length (channels example_buffer) = 1"
    by blast
  with example_constructor run show ?thesis by (intro conjI) blast+
qed

end
